theory Spec2Isabelle
  imports
    Main
    "HOL-Library.Char_ord"
    "HOL-Library.List_Lexorder"
    "HOL-Library.Sublist"
    "HOL-Library.Word"
begin

section \<open>Strings\<close>

text \<open>
  A Go string is a sequence of bytes, here a \<^typ>\<open>string\<close>. Comparison of Go strings
  (\<^verbatim>\<open>sort.Strings\<close>) is byte-wise lexicographic, which is the order of
  \<^typ>\<open>char list\<close> with the characters ordered by their code. A \<^verbatim>\<open>rune\<close> is
  an \<^verbatim>\<open>int32\<close> holding a code point; the values met here are far from its bounds.
\<close>

type_synonym rune = int

definition RuneError :: rune where
  "RuneError = 0xFFFD"

definition RuneSelf :: int where
  "RuneSelf = 0x80"

definition bytes :: "string \<Rightarrow> int list" where
  "bytes s = map of_char s"

text \<open>
  \<^verbatim>\<open>utf8.DecodeRuneInString\<close>: the first rune of the bytes and its width. A byte
  that does not start a well-formed, shortest encoding of a code point outside the
  surrogates is decoded as \<^const>\<open>RuneError\<close> of width 1. The second byte of a sequence
  is checked against the range that its first byte accepts.
\<close>

definition DecodeRuneInString :: "int list \<Rightarrow> rune \<times> nat" where
  "DecodeRuneInString s =
     (case s of
        [] \<Rightarrow> (RuneError, 0)
      | s0 # rest \<Rightarrow>
          if s0 < RuneSelf then (s0, 1)
          else if s0 < 0xC2 \<or> 0xF4 < s0 then (RuneError, 1)
          else
            let sz = (if s0 < 0xE0 then 2 else if s0 < 0xF0 then 3 else 4 :: nat);
                lo = (if s0 = 0xE0 then 0xA0 else if s0 = 0xF0 then 0x90 else 0x80);
                hi = (if s0 = 0xED then 0x9F else if s0 = 0xF4 then 0x8F else 0xBF)
            in if length s < sz then (RuneError, 1)
               else let s1 = s ! 1
               in if s1 < lo \<or> hi < s1 then (RuneError, 1)
                  else if sz \<le> 2 then (s0 mod 32 * 64 + s1 mod 64, 2)
                  else let s2 = s ! 2
                  in if s2 < 0x80 \<or> 0xBF < s2 then (RuneError, 1)
                     else if sz \<le> 3
                       then (s0 mod 16 * 4096 + s1 mod 64 * 64 + s2 mod 64, 3)
                     else let s3 = s ! 3
                     in if s3 < 0x80 \<or> 0xBF < s3 then (RuneError, 1)
                        else (s0 mod 8 * 262144 + s1 mod 64 * 4096 + s2 mod 64 * 64
                                + s3 mod 64, 4))"

text \<open>
  \<^verbatim>\<open>utf8.AppendRune\<close>: the UTF-8 encoding of a rune; a negative rune, a surrogate
  and a rune above \<^verbatim>\<open>utf8.MaxRune\<close> are encoded as \<^const>\<open>RuneError\<close>.
\<close>

definition AppendRune :: "rune \<Rightarrow> string" where
  "AppendRune r =
     (if 0 \<le> r \<and> r < 0x80 then [char_of r]
      else if 0 \<le> r \<and> r < 0x800 then [char_of (0xC0 + r div 64), char_of (0x80 + r mod 64)]
      else if r < 0 \<or> 0x10FFFF < r \<or> (0xD800 \<le> r \<and> r \<le> 0xDFFF)
        then [CHR 0xEF, CHR 0xBF, CHR 0xBD]
      else if r < 0x10000
        then [char_of (0xE0 + r div 4096), char_of (0x80 + r div 64 mod 64),
              char_of (0x80 + r mod 64)]
      else [char_of (0xF0 + r div 262144), char_of (0x80 + r div 4096 mod 64),
            char_of (0x80 + r div 64 mod 64), char_of (0x80 + r mod 64)])"

text \<open>
  The runes of a string in order, as \<^verbatim>\<open>for _, c := range s\<close> yields them.
\<close>

fun runes :: "int list \<Rightarrow> rune list" where
  "runes [] = []"
| "runes (s0 # rest) =
     (case DecodeRuneInString (s0 # rest) of (c, width) \<Rightarrow> c # runes (drop (width - 1) rest))"

text \<open>
  \<^verbatim>\<open>strings.TrimSpace\<close> removes the leading and the trailing white space "as defined
  by Unicode": the runes for which \<^verbatim>\<open>unicode.IsSpace\<close> holds, listed in
  \<^verbatim>\<open>unicode.White_Space\<close>. The function decodes forwards from the start and
  backwards from the end; a rune it removes is a well-formed encoding of a white-space
  code point, so what it removes at either end is a sequence of the encodings below. A
  malformed byte decodes as \<^const>\<open>RuneError\<close>, which is not white space, and stops the
  trimming.
\<close>

definition White_Space :: "rune list" where
  "White_Space =
     [0x09, 0x0A, 0x0B, 0x0C, 0x0D, 0x20, 0x85, 0xA0, 0x1680,
      0x2000, 0x2001, 0x2002, 0x2003, 0x2004, 0x2005, 0x2006, 0x2007, 0x2008, 0x2009, 0x200A,
      0x2028, 0x2029, 0x202F, 0x205F, 0x3000]"

definition IsSpace :: "rune \<Rightarrow> bool" where
  "IsSpace r = (r \<in> set White_Space)"

definition spaceEncodings :: "string list" where
  "spaceEncodings = map AppendRune White_Space"

text \<open>
  \<open>stripOne qs s\<close> removes one of the sequences \<open>qs\<close> from the start of \<open>s\<close>, if
  \<open>s\<close> starts with one; \<open>trimWith qs s\<close> does so as long as it can.
\<close>

fun stripOne :: "string list \<Rightarrow> string \<Rightarrow> string option" where
  "stripOne [] s = None"
| "stripOne (q # qs) s =
     (if q \<noteq> [] \<and> prefix q s then Some (drop (length q) s) else stripOne qs s)"

function trimWith :: "string list \<Rightarrow> string \<Rightarrow> string" where
  "trimWith qs s = (case stripOne qs s of None \<Rightarrow> s | Some rest \<Rightarrow> trimWith qs rest)"
  by pat_completeness auto
termination
proof (relation "measure (\<lambda>(qs, s). length s)")
  show "wf (measure (\<lambda>(qs, s). length s))" by simp
next
  fix qs :: "string list" and s rest :: string
  assume "stripOne qs s = Some rest"
  then have "length rest < length s"
  proof (induction qs)
    case Nil
    then show ?case by simp
  next
    case (Cons q qs)
    show ?case
    proof (cases "q \<noteq> [] \<and> prefix q s")
      case True
      with Cons.prems have rest: "rest = drop (length q) s" by simp
      from True have "length q \<le> length s" by (simp add: prefix_length_le)
      moreover from True have "length q \<noteq> 0" by simp
      ultimately have "length s - length q < length s" by arith
      with rest show ?thesis by simp
    next
      case False
      with Cons.prems have "stripOne qs s = Some rest" by (simp split: if_splits)
      then show ?thesis by (rule Cons.IH)
    qed
  qed
  then show "((qs, rest), (qs, s)) \<in> measure (\<lambda>(qs, s). length s)" by simp
qed

declare trimWith.simps [simp del]

definition TrimLeftSpace :: "string \<Rightarrow> string" where
  "TrimLeftSpace s = trimWith spaceEncodings s"

definition TrimRightSpace :: "string \<Rightarrow> string" where
  "TrimRightSpace s = rev (trimWith (map rev spaceEncodings) (rev s))"

definition TrimSpace :: "string \<Rightarrow> string" where
  "TrimSpace s = TrimRightSpace (TrimLeftSpace s)"

text \<open>
  \<^verbatim>\<open>strings.ToUpper\<close>. A string of bytes below \<^verbatim>\<open>utf8.RuneSelf\<close> has its
  letters a to z replaced byte by byte. Any other string goes through
  \<^verbatim>\<open>strings.Map(unicode.ToUpper, s)\<close>: it is decoded rune by rune, a malformed byte
  as \<^const>\<open>RuneError\<close>, each rune is mapped, and the mapped runes that are not negative
  are encoded again. (Go copies the bytes in front of the first rune that changes
  instead of encoding them again, which gives the same bytes.)
  \<^verbatim>\<open>unicode.ToUpper\<close> maps the runes up to
  \<^verbatim>\<open>unicode.MaxASCII\<close> itself and looks every other one up in the case tables of
  package \<^verbatim>\<open>unicode\<close>. The tables are a parameter here: a \<open>caseTable\<close> gives the
  upper-case code point of a code point.
\<close>

type_synonym caseTable = "rune \<Rightarrow> nat"

definition isASCII :: "string \<Rightarrow> bool" where
  "isASCII s = list_all (\<lambda>c. (of_char c :: int) < RuneSelf) s"

definition toUpperByte :: "char \<Rightarrow> char" where
  "toUpperByte c =
     (let n = (of_char c :: nat) in if 97 \<le> n \<and> n \<le> 122 then char_of (n - 32) else c)"

definition unicode_ToUpper :: "caseTable \<Rightarrow> rune \<Rightarrow> rune" where
  "unicode_ToUpper UpperCase r =
     (if r \<le> 0x7F then (if 97 \<le> r \<and> r \<le> 122 then r - 32 else r)
      else int (UpperCase r))"

definition Map_runes :: "(rune \<Rightarrow> rune) \<Rightarrow> string \<Rightarrow> string" where
  "Map_runes mapping s =
     concat (map (\<lambda>c. let r = mapping c in if 0 \<le> r then AppendRune r else [])
               (runes (bytes s)))"

definition ToUpper :: "caseTable \<Rightarrow> string \<Rightarrow> string" where
  "ToUpper UpperCase s =
     (if isASCII s then map toUpperByte s else Map_runes (unicode_ToUpper UpperCase) s)"

definition HasPrefix :: "string \<Rightarrow> string \<Rightarrow> bool" where
  "HasPrefix s p = prefix p s"

text \<open>\<^verbatim>\<open>strings.Split(s, ",")\<close>: the pieces between the separators, at least one.\<close>

fun splitOn :: "char \<Rightarrow> string \<Rightarrow> string \<Rightarrow> string list" where
  "splitOn sep cur [] = [cur]"
| "splitOn sep cur (c # cs) =
     (if c = sep then cur # splitOn sep [] cs else splitOn sep (cur @ [c]) cs)"

definition Split :: "string \<Rightarrow> char \<Rightarrow> string list" where
  "Split s sep = splitOn sep [] s"

section \<open>Data model\<close>

text \<open>Go's \<^verbatim>\<open>int\<close> on a 64-bit platform; \<^const>\<open>sint\<close> reads its value.\<close>

type_synonym go_int = "64 word"

record Config =
  URL :: string
  Verbose :: bool
  Quiet :: bool
  Insecure :: bool
  FollowRedir :: bool
  SafeOnly :: bool
  Wordlist :: string
  Threads :: go_int
  JSONFile :: string
  Proxy :: string
  Cookies :: string
  Headers :: "string list"
  InputFile :: string
  CookieJar :: string
  Timeout :: go_int

record Result =
  StatusCode :: int
  Length :: nat
  Reason :: string

definition DefaultMethods :: "string list" where
  "DefaultMethods =
    [''CHECKIN'', ''CHECKOUT'', ''CONNECT'', ''COPY'', ''DELETE'', ''GET'', ''HEAD'', ''INDEX'',
     ''LINK'', ''LOCK'', ''MKCOL'', ''MOVE'', ''NOEXISTE'', ''OPTIONS'', ''ORDERPATCH'',
     ''PATCH'', ''POST'', ''PROPFIND'', ''PROPPATCH'', ''PUT'', ''REPORT'', ''SEARCH'',
     ''SHOWMETHOD'', ''SPACEJUMP'', ''TEXTSEARCH'', ''TRACE'', ''TRACK'', ''UNCHECKOUT'',
     ''UNLINK'', ''UNLOCK'', ''VERSION-CONTROL'', ''BAMBOOZLE'']"

text \<open>A Go \<^verbatim>\<open>map[string]bool\<close>; reading a missing key gives \<^verbatim>\<open>false\<close>.\<close>

type_synonym bool_map = "string \<rightharpoonup> bool"

definition lookupBool :: "bool_map \<Rightarrow> string \<Rightarrow> bool" where
  "lookupBool m k = (case m k of None \<Rightarrow> False | Some b \<Rightarrow> b)"

definition DangerousMethods :: bool_map where
  "DangerousMethods =
     [''DELETE'' \<mapsto> True, ''COPY'' \<mapsto> True, ''PUT'' \<mapsto> True, ''PATCH'' \<mapsto> True,
      ''UNCHECKOUT'' \<mapsto> True]"

section \<open>Logger\<close>

datatype LogLevel = LevelDebug | LevelInfo | LevelSuccess | LevelWarning | LevelError

record Logger =
  LoggerVerbose :: bool
  LoggerQuiet :: bool

text \<open>
  A printed line keeps the level, the format string and the arguments handed to
  \<^verbatim>\<open>fmt.Sprintf\<close>.
\<close>

datatype arg = Str string | Num int

type_synonym line = "LogLevel \<times> string \<times> arg list"

section \<open>The world outside the program\<close>

text \<open>
  What \<^verbatim>\<open>os.Open\<close> and the \<^verbatim>\<open>bufio.Scanner\<close> give for a path: the open fails,
  or the scanner yields the lines in order and \<^verbatim>\<open>scanner.Err()\<close> is read at the end.
\<close>

datatype opened = OpenError string | Scanned "string list" "string option"

text \<open>
  \<^verbatim>\<open>time.Duration\<close> is an \<^verbatim>\<open>int64\<close> count of nanoseconds; its arithmetic wraps.
\<close>

type_synonym Duration = "64 word"

definition Second :: Duration where
  "Second = 1000000000"

record Client =
  ClientTimeout :: Duration
  InsecureSkipVerify :: bool
  ClientProxy :: "string option"
  CheckRedirect :: bool

record Request =
  reqMethod :: string
  reqURL :: string
  reqHeader :: "string \<rightharpoonup> string list"
  reqCookies :: "string \<rightharpoonup> string"

text \<open>
  The part of an \<^verbatim>\<open>http.Response\<close> the program reads: \<open>respAllow\<close> is
  \<^verbatim>\<open>resp.Header.Get("Allow")\<close> (empty when the header is absent), \<open>respBody\<close> the
  number of bytes the body delivers before it ends or fails, \<open>respBodyErr\<close> the error
  that \<^verbatim>\<open>resp.Body.Read\<close> returns after these bytes in place of the end of the
  body, if any: a timeout of the client, a reset connection. The timeout of the client
  covers the time until the body has been read.
\<close>

record Response =
  respStatusCode :: int
  respStatus :: string
  respAllow :: string
  respBody :: nat
  respBodyErr :: "string option"

text \<open>
  The library calls whose outcome the program does not decide: \<open>os_Open\<close> for
  \<^verbatim>\<open>os.Open\<close> and the scanner on the file, \<open>url_Parse\<close> for the error of
  \<^verbatim>\<open>url.Parse\<close>, \<open>http_NewRequest method url\<close> for the error of
  \<^verbatim>\<open>http.NewRequest(method, url, nil)\<close>, \<open>client_Do\<close> for
  \<^verbatim>\<open>client.Do(req)\<close>. An error is \<open>Some text\<close> or \<open>Inl text\<close>. Every call
  is taken to return. \<open>unicode_UpperCase\<close> stands for the case tables of package
  \<^verbatim>\<open>unicode\<close>, which \<^verbatim>\<open>strings.ToUpper\<close> consults for the runes above
  \<^verbatim>\<open>unicode.MaxASCII\<close>.
\<close>

record env =
  os_Open :: "string \<Rightarrow> opened"
  url_Parse :: "string \<Rightarrow> string option"
  http_NewRequest :: "string \<Rightarrow> string \<Rightarrow> string option"
  client_Do :: "Client \<Rightarrow> Request \<Rightarrow> string + Response"
  unicode_UpperCase :: caseTable

text \<open>
  The effects a run leaves behind: the lines the logger has printed and the requests
  handed to \<^verbatim>\<open>client.Do\<close>, both in order.
\<close>

record trace =
  printed :: "line list"
  requests :: "Request list"

definition log :: "Logger \<Rightarrow> LogLevel \<Rightarrow> string \<Rightarrow> arg list \<Rightarrow> trace \<Rightarrow> trace" where
  "log l level format args t =
     (if level = LevelDebug \<and> \<not> LoggerVerbose l then t
      else if level \<noteq> LevelDebug \<and> LoggerQuiet l then t
      else t\<lparr>printed := printed t @ [(level, format, args)]\<rparr>)"

definition Debug :: "Logger \<Rightarrow> string \<Rightarrow> arg list \<Rightarrow> trace \<Rightarrow> trace" where
  "Debug l format args t = log l LevelDebug format args t"

definition Info :: "Logger \<Rightarrow> string \<Rightarrow> arg list \<Rightarrow> trace \<Rightarrow> trace" where
  "Info l format args t = log l LevelInfo format args t"

definition Warning :: "Logger \<Rightarrow> string \<Rightarrow> arg list \<Rightarrow> trace \<Rightarrow> trace" where
  "Warning l format args t = log l LevelWarning format args t"

definition Do :: "env \<Rightarrow> Client \<Rightarrow> Request \<Rightarrow> trace \<Rightarrow> (string + Response) \<times> trace" where
  "Do e client req t = (client_Do e client req, t\<lparr>requests := requests t @ [req]\<rparr>)"

text \<open>The warnings among the printed lines.\<close>

definition warnings :: "trace \<Rightarrow> line list" where
  "warnings t = filter (\<lambda>l. fst l = LevelWarning) (printed t)"

section \<open>readLinesFromFile\<close>

text \<open>The loop over \<^verbatim>\<open>scanner.Scan()\<close>, then the function around it.\<close>

fun scanLines :: "string list \<Rightarrow> string list \<Rightarrow> string list" where
  "scanLines [] lines = lines"
| "scanLines (scanned # rest) lines =
     (let line = TrimSpace scanned
      in if line \<noteq> [] \<and> \<not> HasPrefix line ''#'' then scanLines rest (lines @ [line])
         else scanLines rest lines)"

definition readLinesFromFile :: "env \<Rightarrow> string \<Rightarrow> string + string list" where
  "readLinesFromFile e filename =
     (case os_Open e filename of
        OpenError err \<Rightarrow> Inl err
      | Scanned texts scanErr \<Rightarrow>
          (let lines = scanLines texts []
           in case scanErr of Some err \<Rightarrow> Inl err | None \<Rightarrow> Inr lines))"

section \<open>buildHTTPClient\<close>

text \<open>
  The timeout is \<^verbatim>\<open>time.Duration(timeout) * time.Second\<close>, a product of 64-bit
  integers. \<open>CheckRedirect\<close> tells whether the function that stops at the first
  response has been installed.
\<close>

definition buildHTTPClient :: "env \<Rightarrow> Config \<Rightarrow> string + Client" where
  "buildHTTPClient e config =
     (let timeout = (if 0 <s Timeout config then Timeout config else 10);
          client = \<lparr>ClientTimeout = timeout * Second,
                    InsecureSkipVerify = Insecure config,
                    ClientProxy = None,
                    CheckRedirect = False\<rparr>
      in case (if Proxy config \<noteq> []
               then (case url_Parse e (Proxy config) of
                       Some err \<Rightarrow> Inl (''invalid proxy URL: '' @ err)
                     | None \<Rightarrow> Inr (client\<lparr>ClientProxy := Some (Proxy config)\<rparr>))
               else Inr client) of
           Inl err \<Rightarrow> Inl err
         | Inr client' \<Rightarrow>
             Inr (if \<not> FollowRedir config then client'\<lparr>CheckRedirect := True\<rparr> else client'))"

section \<open>The method catalog\<close>

text \<open>The request of \<^verbatim>\<open>http.NewRequest("OPTIONS", config.URL, nil)\<close>.\<close>

definition optionsRequest :: "Config \<Rightarrow> Request" where
  "optionsRequest config =
     \<lparr>reqMethod = ''OPTIONS'', reqURL = URL config,
      reqHeader = Map.empty, reqCookies = Map.empty\<rparr>"

text \<open>
  After a response has arrived \<^verbatim>\<open>err\<close> is \<^verbatim>\<open>nil\<close>, so the two
  \<^verbatim>\<open>return nil, err\<close> below the status and header checks return no methods and no
  error: \<open>Inr []\<close>.
\<close>

definition getMethodsFromOptions ::
  "env \<Rightarrow> Config \<Rightarrow> Logger \<Rightarrow> trace \<Rightarrow> (string + string list) \<times> trace" where
  "getMethodsFromOptions e config logger t =
     (if URL config = [] then (Inl ''no URL provided for OPTIONS request'', t)
      else case buildHTTPClient e config of
        Inl err \<Rightarrow> (Inl err, t)
      | Inr client \<Rightarrow>
         (case http_NewRequest e ''OPTIONS'' (URL config) of
            Some err \<Rightarrow> (Inl err, t)
          | None \<Rightarrow>
             (let req = optionsRequest config;
                  t1 = Debug logger ''Sending OPTIONS request with timeout of %d seconds''
                         [Num (sint (Timeout config))] t;
                  (r, t2) = Do e client req t1
              in case r of
                   Inl err \<Rightarrow> (Inl err, t2)
                 | Inr resp \<Rightarrow>
                     if respStatusCode resp \<noteq> 200
                     then (Inr [], Debug logger ''OPTIONS request returned status code %d''
                                     [Num (respStatusCode resp)] t2)
                     else let allow = respAllow resp
                          in if allow = []
                             then (Inr [], Debug logger
                                     ''OPTIONS request did not return Allow header'' [] t2)
                             else (Inr (map TrimSpace (Split allow CHR '','')),
                                   Info logger ''Server supports the following methods: %s''
                                     [Str allow] t2))))"


text \<open>
  The normalisation loop of \<^verbatim>\<open>getMethods\<close>, with the case tables that
  \<^verbatim>\<open>strings.ToUpper\<close> consults, the slice built so far and the map
  \<^verbatim>\<open>seen\<close>; then \<^verbatim>\<open>getMethods\<close>, which ends with \<^verbatim>\<open>sort.Strings\<close>.
\<close>

fun normalizeLoop ::
  "caseTable \<Rightarrow> string list \<Rightarrow> string list \<Rightarrow> bool_map \<Rightarrow> string list" where
  "normalizeLoop UpperCase [] normalizedMethods seen = normalizedMethods"
| "normalizeLoop UpperCase (method # rest) normalizedMethods seen =
     (let uppercase = ToUpper UpperCase (TrimSpace method)
      in if uppercase \<noteq> [] \<and> \<not> lookupBool seen uppercase
         then normalizeLoop UpperCase rest (normalizedMethods @ [uppercase])
                (seen(uppercase \<mapsto> True))
         else normalizeLoop UpperCase rest normalizedMethods seen)"

definition getMethods ::
  "env \<Rightarrow> Config \<Rightarrow> Logger \<Rightarrow> trace \<Rightarrow> (string + string list) \<times> trace" where
  "getMethods e config logger t =
     (let t1 = Debug logger ''Using %d default HTTP methods''
                 [Num (int (length DefaultMethods))] t;
          methods = [] @ DefaultMethods
      in case (if Wordlist config \<noteq> []
               then (case readLinesFromFile e (Wordlist config) of
                       Inl err \<Rightarrow> Inl (''failed to read wordlist: '' @ err)
                     | Inr wordlistMethods \<Rightarrow>
                         Inr (methods @ wordlistMethods,
                              Info logger ''Added %d methods from wordlist: %s''
                                [Num (int (length wordlistMethods)), Str (Wordlist config)] t1))
               else Inr (methods, t1)) of
           Inl err \<Rightarrow> (Inl err, t1)
         | Inr (methods', t2) \<Rightarrow>
            (let t3 = Debug logger ''Sending OPTIONS request to discover supported methods'' [] t2;
                 (r, t4) = getMethodsFromOptions e config logger t3;
                 (methods'', t5) =
                   (case r of
                      Inl err \<Rightarrow>
                        (methods', Warning logger
                           ''Failed to get methods from OPTIONS request: %v'' [Str err] t4)
                    | Inr optionsMethods \<Rightarrow>
                        if length optionsMethods > 0
                        then (methods' @ optionsMethods,
                              Info logger ''Added %d methods from OPTIONS response''
                                [Num (int (length optionsMethods))] t4)
                        else (methods', t4))
             in (Inr (sort (normalizeLoop (unicode_UpperCase e) methods'' [] Map.empty)), t5)))"

section \<open>Safe mode\<close>

text \<open>
  The loop of \<^verbatim>\<open>runSingleProbe\<close> that copies the methods not flagged in
  \<^const>\<open>DangerousMethods\<close>, and the branch around it.
\<close>

fun safeLoop :: "string list \<Rightarrow> string list \<Rightarrow> string list" where
  "safeLoop [] safeMethods = safeMethods"
| "safeLoop (method # rest) safeMethods =
     (if \<not> lookupBool DangerousMethods method then safeLoop rest (safeMethods @ [method])
      else safeLoop rest safeMethods)"

definition safeModeFilter ::
  "Config \<Rightarrow> Logger \<Rightarrow> string list \<Rightarrow> trace \<Rightarrow> string list \<times> trace" where
  "safeModeFilter config logger methods t =
     (if SafeOnly config
      then (safeLoop methods [],
            Info logger ''Safe mode enabled, testing only non-dangerous methods'' [] t)
      else (methods,
            Warning logger ''Use --safe-only to exclude them'' []
              (Warning logger
                 ''Testing includes potentially dangerous HTTP methods (PUT, DELETE, etc.)'' []
                 t)))"

section \<open>testMethod\<close>

text \<open>
  What the workers share: the result map, written under the mutex, and the effects.
  \<open>stores\<close> is a history of the map: the keys assigned, in the order of the
  assignments.
\<close>

record shared =
  results :: "string \<rightharpoonup> Result"
  stores :: "string list"
  effects :: trace

text \<open>\<^verbatim>\<open>mutex.Lock(); results[method] = r; mutex.Unlock()\<close>\<close>

definition store :: "string \<Rightarrow> Result \<Rightarrow> shared \<Rightarrow> shared" where
  "store method r sh =
     sh\<lparr>results := (results sh)(method \<mapsto> r), stores := stores sh @ [method]\<rparr>"

text \<open>
  The request carries every value of every configured header and every configured
  cookie. The body is read through \<^verbatim>\<open>io.LimitReader(resp.Body, 1024*1024)\<close>,
  which reports the end of the input once it has passed on 1 MiB: \<^verbatim>\<open>io.ReadAll\<close>
  returns the error of the body only when the body fails before that, and the bytes
  read until then in either case.
\<close>

definition testMethod ::
  "env \<Rightarrow> Client \<Rightarrow> string \<Rightarrow> string \<Rightarrow> (string \<rightharpoonup> string list) \<Rightarrow> (string \<rightharpoonup> string)
    \<Rightarrow> Logger \<Rightarrow> shared \<Rightarrow> shared" where
  "testMethod e client targetURL method headers cookies logger sh =
     (case http_NewRequest e method targetURL of
        Some err \<Rightarrow>
          sh\<lparr>effects := Debug logger ''Failed to create request for method %s: %v''
                           [Str method, Str err] (effects sh)\<rparr>
      | None \<Rightarrow>
          (let req = \<lparr>reqMethod = method, reqURL = targetURL,
                      reqHeader = headers, reqCookies = cookies\<rparr>;
               t1 = Debug logger ''Testing method: %s'' [Str method] (effects sh);
               (r, t2) = Do e client req t1
           in case r of
                Inl err \<Rightarrow>
                  store method \<lparr>StatusCode = 0, Length = 0, Reason = err\<rparr>
                    (sh\<lparr>effects := Debug logger ''Request failed for method %s: %v''
                                     [Str method, Str err] t2\<rparr>)
              | Inr resp \<Rightarrow>
                  (let body = min (respBody resp) (1024 * 1024);
                       t3 = (case respBodyErr resp of
                               Some err \<Rightarrow>
                                 if respBody resp < 1024 * 1024
                                 then Debug logger
                                        ''Failed to read response body for method %s: %v''
                                        [Str method, Str err] t2
                                 else t2
                             | None \<Rightarrow> t2)
                   in store method
                        \<lparr>StatusCode = respStatusCode resp, Length = body,
                         Reason = respStatus resp\<rparr>
                        (sh\<lparr>effects := t3\<rparr>))))"

section \<open>Dispatch\<close>

text \<open>
  The dispatch of \<^verbatim>\<open>runSingleProbe\<close>: the main goroutine starts one worker per
  method and then waits for the wait group; each worker sends into the buffered channel
  \<^verbatim>\<open>semaphore\<close>, calls \<^verbatim>\<open>testMethod\<close>, receives from the channel and calls
  \<^verbatim>\<open>wg.Done()\<close> (the two deferred calls, in that order).

  A worker is at one of these points:
\<close>

datatype pc =
    Waiting   \<comment> \<open>started, before \<^verbatim>\<open>semaphore <- struct{}{}\<close> has gone through\<close>
  | Running   \<comment> \<open>holds a slot, inside \<^verbatim>\<open>testMethod\<close>\<close>
  | Returned  \<comment> \<open>\<^verbatim>\<open>testMethod\<close> has returned, \<^verbatim>\<open><-semaphore\<close> is pending\<close>
  | Released  \<comment> \<open>slot given back, \<^verbatim>\<open>wg.Done()\<close> is pending\<close>
  | Finished

text \<open>
  \<open>pcs\<close> holds the workers started so far, worker \<open>i\<close> for the \<open>i\<close>-th method;
  \<open>sem\<close> is the number of elements in the channel, \<open>wg\<close> the counter of the wait
  group, \<open>joined\<close> whether \<^verbatim>\<open>wg.Wait()\<close> has returned.
\<close>

record dstate =
  pcs :: "pc list"
  sem :: nat
  wg :: nat
  sh :: shared
  joined :: bool

text \<open>What the workers are given.\<close>

record job =
  jobClient :: Client
  jobURL :: string
  jobMethods :: "string list"
  jobHeaders :: "string \<rightharpoonup> string list"
  jobCookies :: "string \<rightharpoonup> string"
  jobLogger :: Logger
  jobThreads :: go_int

text \<open>
  \<^verbatim>\<open>make(chan struct{}, config.Threads)\<close> panics on a negative size; otherwise the
  dispatch starts with no worker, an empty channel and an empty result map.
\<close>

definition start :: "job \<Rightarrow> trace \<Rightarrow> dstate option" where
  "start j t =
     (if jobThreads j <s 0 then None
      else Some \<lparr>pcs = [], sem = 0, wg = 0,
                 sh = \<lparr>results = Map.empty, stores = [], effects = t\<rparr>,
                 joined = False\<rparr>)"

text \<open>
  The scheduler picks the next action. An action goes through only where the Go
  operation does not block: a send needs room in the channel (with capacity 0 no send
  ever finds a receiver, because receives only follow sends), a receive needs an
  element, \<^verbatim>\<open>wg.Wait()\<close> needs the counter at zero after the loop has started
  every worker.
\<close>

datatype action = Spawn | Acquire nat | Run nat | Release nat | Done nat | Wait

fun fire :: "env \<Rightarrow> job \<Rightarrow> action \<Rightarrow> dstate \<Rightarrow> dstate option" where
  "fire e j Spawn s =
     (if length (pcs s) < length (jobMethods j)
      then Some (s\<lparr>pcs := pcs s @ [Waiting], wg := wg s + 1\<rparr>) else None)"
| "fire e j (Acquire i) s =
     (if i < length (pcs s) \<and> pcs s ! i = Waiting \<and> int (sem s) < sint (jobThreads j)
      then Some (s\<lparr>pcs := (pcs s)[i := Running], sem := sem s + 1\<rparr>) else None)"
| "fire e j (Run i) s =
     (if i < length (pcs s) \<and> pcs s ! i = Running
      then Some (s\<lparr>pcs := (pcs s)[i := Returned],
                   sh := testMethod e (jobClient j) (jobURL j) (jobMethods j ! i)
                           (jobHeaders j) (jobCookies j) (jobLogger j) (sh s)\<rparr>)
      else None)"
| "fire e j (Release i) s =
     (if i < length (pcs s) \<and> pcs s ! i = Returned \<and> 0 < sem s
      then Some (s\<lparr>pcs := (pcs s)[i := Released], sem := sem s - 1\<rparr>) else None)"
| "fire e j (Done i) s =
     (if i < length (pcs s) \<and> pcs s ! i = Released \<and> 0 < wg s
      then Some (s\<lparr>pcs := (pcs s)[i := Finished], wg := wg s - 1\<rparr>) else None)"
| "fire e j Wait s =
     (if length (pcs s) = length (jobMethods j) \<and> wg s = 0 \<and> \<not> joined s
      then Some (s\<lparr>joined := True\<rparr>) else None)"

fun exec :: "env \<Rightarrow> job \<Rightarrow> action list \<Rightarrow> dstate \<Rightarrow> dstate option" where
  "exec e j [] s = Some s"
| "exec e j (a # as) s = (case fire e j a s of None \<Rightarrow> None | Some s' \<Rightarrow> exec e j as s')"

text \<open>The states a dispatch can be in: those some schedule leads to.\<close>

definition reachable :: "env \<Rightarrow> job \<Rightarrow> trace \<Rightarrow> dstate \<Rightarrow> bool" where
  "reachable e j t s = (\<exists>s0 sched. start j t = Some s0 \<and> exec e j sched s0 = Some s)"

definition inflight :: "dstate \<Rightarrow> nat" where
  "inflight s = length (filter (\<lambda>p. p = Running) (pcs s))"

text \<open>
  The job that \<^verbatim>\<open>runSingleProbe\<close> dispatches: the client, headers and cookies it has
  built, the catalog after the safe-mode branch, and the URL and the concurrency limit
  of the configuration.
\<close>

definition dispatchJob ::
  "Config \<Rightarrow> Logger \<Rightarrow> Client \<Rightarrow> (string \<rightharpoonup> string list) \<Rightarrow> (string \<rightharpoonup> string)
    \<Rightarrow> string list \<Rightarrow> job" where
  "dispatchJob config logger client headers cookies methods =
     \<lparr>jobClient = client, jobURL = URL config, jobMethods = methods,
      jobHeaders = headers, jobCookies = cookies, jobLogger = logger,
      jobThreads = Threads config\<rparr>"

section \<open>The invariant of the dispatch\<close>

definition holding :: "pc \<Rightarrow> bool" where
  "holding p = (p = Running \<or> p = Returned)"

definition active :: "pc \<Rightarrow> bool" where
  "active p = (p \<noteq> Finished)"

definition passed :: "pc \<Rightarrow> bool" where
  "passed p = (p = Returned \<or> p = Released \<or> p = Finished)"

definition constructs :: "env \<Rightarrow> job \<Rightarrow> string \<Rightarrow> bool" where
  "constructs e j method = (http_NewRequest e method (jobURL j) = None)"

text \<open>
  How often \<open>method\<close> has been written so far: once for every worker that has come
  back from \<open>testMethod\<close> with this method and a request that could be built.
\<close>

definition written :: "env \<Rightarrow> job \<Rightarrow> pc list \<Rightarrow> string \<Rightarrow> nat" where
  "written e j ps method =
     length (filter (\<lambda>(p, m). passed p \<and> m = method \<and> constructs e j m) (zip ps (jobMethods j)))"

definition dispatch_inv :: "env \<Rightarrow> job \<Rightarrow> dstate \<Rightarrow> bool" where
  "dispatch_inv e j s \<longleftrightarrow>
     length (pcs s) \<le> length (jobMethods j)
     \<and> sem s = length (filter holding (pcs s))
     \<and> int (sem s) \<le> sint (jobThreads j)
     \<and> wg s = length (filter active (pcs s))
     \<and> (\<forall>m. count_list (stores (sh s)) m = written e j (pcs s) m)
     \<and> dom (results (sh s)) = set (stores (sh s))
     \<and> (joined s \<longrightarrow> length (pcs s) = length (jobMethods j) \<and> (\<forall>p\<in>set (pcs s). p = Finished))"

text \<open>
  The work a dispatch still has to do: the steps every worker has left, the workers not
  yet started, and the return of \<^verbatim>\<open>wg.Wait()\<close>.
\<close>

fun rank :: "pc \<Rightarrow> nat" where
  "rank Waiting = 4"
| "rank Running = 3"
| "rank Returned = 2"
| "rank Released = 1"
| "rank Finished = 0"

definition remaining :: "job \<Rightarrow> dstate \<Rightarrow> nat" where
  "remaining j s =
     5 * (length (jobMethods j) - length (pcs s)) + sum_list (map rank (pcs s))
       + (if joined s then 0 else 1)"

section \<open>Example inputs\<close>

text \<open>
  A case table that knows the small letters of Latin-1 and leaves every other rune as it
  is.
\<close>

definition example_UpperCase :: caseTable where
  "example_UpperCase r =
     (if 0xE0 \<le> r \<and> r \<le> 0xFE \<and> r \<noteq> 0xF7 then nat (r - 32)
      else if r = 0xFF then 0x178 else if r = 0xB5 then 0x39C else nat r)"

text \<open>
  A wordlist with a lower-case line, a comment, a blank line and a padded line, and a
  server that answers every request with 200 and \<^verbatim>\<open>Allow: GET, frob\<close>.
\<close>

definition example_env :: env where
  "example_env =
     \<lparr>os_Open = (\<lambda>path. if path = ''w.txt''
                  then Scanned [''get'', '' # c'', [], ''  cuStom '', ''POST''] None
                  else OpenError ''no such file''),
      url_Parse = (\<lambda>_. None),
      http_NewRequest = (\<lambda>_ _. None),
      client_Do = (\<lambda>_ _. Inr \<lparr>respStatusCode = 200, respStatus = ''200 OK'',
                     respAllow = ''GET, frob'', respBody = 0, respBodyErr = None\<rparr>),
      unicode_UpperCase = example_UpperCase\<rparr>"


definition example_config :: Config where
  "example_config =
     \<lparr>URL = ''http://t'', Verbose = False, Quiet = False, Insecure = False,
      FollowRedir = False, SafeOnly = False, Wordlist = ''w.txt'', Threads = 5,
      JSONFile = [], Proxy = [], Cookies = [], Headers = [], InputFile = [],
      CookieJar = [], Timeout = 10\<rparr>"

definition example_logger :: Logger where
  "example_logger = \<lparr>LoggerVerbose = False, LoggerQuiet = False\<rparr>"

definition no_trace :: trace where
  "no_trace = \<lparr>printed = [], requests = []\<rparr>"

definition example_catalog :: "string list" where
  "example_catalog =
     [''BAMBOOZLE'', ''CHECKIN'', ''CHECKOUT'', ''CONNECT'', ''COPY'', ''CUSTOM'', ''DELETE'',
      ''FROB'', ''GET'', ''HEAD'', ''INDEX'', ''LINK'', ''LOCK'', ''MKCOL'', ''MOVE'',
      ''NOEXISTE'', ''OPTIONS'', ''ORDERPATCH'', ''PATCH'', ''POST'', ''PROPFIND'',
      ''PROPPATCH'', ''PUT'', ''REPORT'', ''SEARCH'', ''SHOWMETHOD'', ''SPACEJUMP'',
      ''TEXTSEARCH'', ''TRACE'', ''TRACK'', ''UNCHECKOUT'', ''UNLINK'', ''UNLOCK'',
      ''VERSION-CONTROL'']"

text \<open>Two methods, one slot, and a schedule that runs the workers one after the other.\<close>

definition example_job :: job where
  "example_job =
     \<lparr>jobClient = \<lparr>ClientTimeout = 10000000000, InsecureSkipVerify = False,
                   ClientProxy = None, CheckRedirect = True\<rparr>,
      jobURL = ''http://t'', jobMethods = [''GET'', ''PUT''],
      jobHeaders = Map.empty, jobCookies = Map.empty,
      jobLogger = example_logger, jobThreads = 1\<rparr>"

definition example_schedule :: "action list" where
  "example_schedule =
     [Spawn, Spawn, Acquire 0, Run 0, Release 0, Done 0,
      Acquire 1, Run 1, Release 1, Done 1, Wait]"

text \<open>A target that refuses every connection.\<close>

definition example_env_down :: env where
  "example_env_down =
     \<lparr>os_Open = (\<lambda>_. OpenError ''no such file''),
      url_Parse = (\<lambda>_. None),
      http_NewRequest = (\<lambda>_ _. None),
      client_Do = (\<lambda>_ _. Inl ''connection refused''),
      unicode_UpperCase = example_UpperCase\<rparr>"

text \<open>
  A wordlist with a comment behind a no-break space (U+00A0), a method with a letter
  outside ASCII followed by an ideographic space (U+3000), and a padded line.
\<close>

definition example_env_unicode :: env where
  "example_env_unicode =
     example_env\<lparr>os_Open :=
       (\<lambda>_. Scanned [[CHR 0xC2, CHR 0xA0] @ ''# c'',
                      ''caf'' @ [CHR 0xC3, CHR 0xA9, CHR 0xE3, CHR 0x80, CHR 0x80],
                      ''  cuStom ''] None)\<rparr>"

text \<open>
  A server that answers every request with 200 and then stalls after ten bytes of the
  body, until the timeout of the client ends the read.
\<close>

definition example_env_stalled :: env where
  "example_env_stalled =
     \<lparr>os_Open = (\<lambda>_. OpenError ''no such file''),
      url_Parse = (\<lambda>_. None),
      http_NewRequest = (\<lambda>_ _. None),
      client_Do = (\<lambda>_ _. Inr \<lparr>respStatusCode = 200, respStatus = ''200 OK'',
                     respAllow = [], respBody = 10,
                     respBodyErr = Some ''context deadline exceeded (Client.Timeout or context cancellation while reading body)''\<rparr>),
      unicode_UpperCase = example_UpperCase\<rparr>"

section \<open>Properties of the string functions\<close>

text \<open>Trimming reaches a string that starts and ends with no white space, and stops there.\<close>

lemma stripOne_None_iff: "stripOne qs s = None \<longleftrightarrow> (\<forall>q\<in>set qs. q = [] \<or> \<not> prefix q s)"
  by (induction qs) auto

lemma stripOne_suffix: "stripOne qs s = Some rest \<Longrightarrow> suffix rest s"
  by (induction qs) (auto split: if_splits simp: suffix_drop)

lemma trimWith_suffix: "suffix (trimWith qs s) s"
proof (induction qs s rule: trimWith.induct)
  case (1 qs s)
  show ?case
  proof (cases "stripOne qs s")
    case None
    then show ?thesis by (simp add: trimWith.simps [of qs s])
  next
    case (Some rest)
    then have "suffix (trimWith qs rest) rest" by (rule 1)
    moreover from Some have "suffix rest s" by (rule stripOne_suffix)
    ultimately have "suffix (trimWith qs rest) s" by (rule suffix_order.trans)
    then show ?thesis using Some by (simp add: trimWith.simps [of qs s])
  qed
qed

lemma trimWith_stuck: "stripOne qs (trimWith qs s) = None"
proof (induction qs s rule: trimWith.induct)
  case (1 qs s)
  show ?case
  proof (cases "stripOne qs s")
    case None
    then show ?thesis by (simp add: trimWith.simps [of qs s])
  next
    case (Some rest)
    then have "stripOne qs (trimWith qs rest) = None" by (rule 1)
    then show ?thesis using Some by (simp add: trimWith.simps [of qs s])
  qed
qed

lemma trimWith_id: "stripOne qs s = None \<Longrightarrow> trimWith qs s = s"
  by (simp add: trimWith.simps [of qs s])

lemma stripOne_None_prefix:
  assumes "stripOne qs u = None" and "prefix t u"
  shows "stripOne qs t = None"
  unfolding stripOne_None_iff
proof
  fix q assume "q \<in> set qs"
  with assms(1) have "q = [] \<or> \<not> prefix q u" by (simp add: stripOne_None_iff)
  moreover have "prefix q u" if "prefix q t" using that assms(2) by (rule prefix_order.trans)
  ultimately show "q = [] \<or> \<not> prefix q t" by blast
qed

lemma TrimRightSpace_prefix: "prefix (TrimRightSpace s) s"
proof -
  have "suffix (trimWith (map rev spaceEncodings) (rev s)) (rev s)" by (rule trimWith_suffix)
  then have "suffix (rev (TrimRightSpace s)) (rev s)" by (simp add: TrimRightSpace_def)
  then show ?thesis by (simp add: suffix_to_prefix)
qed

lemma TrimRightSpace_id:
  "stripOne (map rev spaceEncodings) (rev s) = None \<Longrightarrow> TrimRightSpace s = s"
  by (simp add: TrimRightSpace_def trimWith_id)

lemma TrimSpace_idem: "TrimSpace (TrimSpace s) = TrimSpace s"
proof -
  let ?a = "TrimLeftSpace s"
  let ?t = "TrimRightSpace ?a"
  have "stripOne spaceEncodings ?a = None" unfolding TrimLeftSpace_def by (rule trimWith_stuck)
  moreover have "prefix ?t ?a" by (rule TrimRightSpace_prefix)
  ultimately have "stripOne spaceEncodings ?t = None" by (rule stripOne_None_prefix)
  then have left: "TrimLeftSpace ?t = ?t" unfolding TrimLeftSpace_def by (rule trimWith_id)
  have "stripOne (map rev spaceEncodings) (rev ?t) = None"
    unfolding TrimRightSpace_def rev_rev_ident by (rule trimWith_stuck)
  then have right: "TrimRightSpace ?t = ?t" by (rule TrimRightSpace_id)
  show ?thesis unfolding TrimSpace_def left right ..
qed

lemma of_char_nonneg: "0 \<le> (of_char c :: int)"
proof -
  have "(of_char c :: int) = int (of_char c)" by (simp only: of_nat_of_char)
  then show ?thesis by simp
qed

lemma AppendRune_nonempty: "AppendRune r \<noteq> []"
  by (simp add: AppendRune_def)

lemma DecodeRuneInString_nonneg:
  assumes "\<forall>b\<in>set s. 0 \<le> b"
  shows "0 \<le> fst (DecodeRuneInString s)"
proof (cases s)
  case Nil
  then show ?thesis by (simp add: DecodeRuneInString_def RuneError_def)
next
  case (Cons s0 rest)
  with assms have "0 \<le> s0" by simp
  then show ?thesis
    unfolding Cons DecodeRuneInString_def RuneError_def Let_def
    by (simp split: if_splits)
qed

lemma unicode_ToUpper_nonneg: "0 \<le> r \<Longrightarrow> 0 \<le> unicode_ToUpper tbl r"
  by (simp add: unicode_ToUpper_def)

lemma Map_runes_nonempty:
  assumes "s \<noteq> []"
  shows "Map_runes (unicode_ToUpper tbl) s \<noteq> []"
proof -
  from assms obtain c cs where s: "s = c # cs" by (cases s) auto
  obtain r w where d: "DecodeRuneInString (of_char c # map of_char cs) = (r, w)"
    by (cases "DecodeRuneInString (of_char c # map of_char cs :: int list)")
  have "\<forall>b\<in>set (of_char c # map of_char cs :: int list). 0 \<le> b"
    by (auto simp: of_char_nonneg)
  then have "0 \<le> fst (DecodeRuneInString (of_char c # map of_char cs))"
    by (rule DecodeRuneInString_nonneg)
  with d have "0 \<le> r" by simp
  then have "0 \<le> unicode_ToUpper tbl r" by (rule unicode_ToUpper_nonneg)
  then show ?thesis
    by (simp add: Map_runes_def bytes_def s d AppendRune_nonempty)
qed

lemma ToUpper_Nil_iff: "ToUpper tbl s = [] \<longleftrightarrow> s = []"
proof (cases "isASCII s")
  case True
  then show ?thesis by (simp add: ToUpper_def)
next
  case False
  then have "s \<noteq> []" by (auto simp: isASCII_def)
  moreover from this have "Map_runes (unicode_ToUpper tbl) s \<noteq> []" by (rule Map_runes_nonempty)
  ultimately show ?thesis using False by (simp add: ToUpper_def)
qed

text \<open>
  The table of encodings agrees with the decoder. Decoding and encoding are inverse to
  each other on well-formed sequences: the arithmetic first, then the functions.
\<close>

lemma divmod_int:
  fixes a q m j :: int
  assumes "a = m * q + j" "0 \<le> j" "j < m"
  shows "a div m = q" "a mod m = j"
  using assms by (auto intro: int_div_pos_eq int_mod_pos_eq)

lemma enc2:
  fixes b0 b1 r :: int
  assumes "0xC2 \<le> b0" "b0 < 0xE0" "0x80 \<le> b1" "b1 \<le> 0xBF"
    and "r = b0 mod 32 * 64 + b1 mod 64"
  shows "0x80 \<le> r \<and> r < 0x800 \<and> 0xC0 + r div 64 = b0 \<and> 0x80 + r mod 64 = b1"
proof -
  define k0 where "k0 = b0 - 0xC0"
  define k1 where "k1 = b1 - 0x80"
  have k0: "2 \<le> k0" "k0 < 32" and k1: "0 \<le> k1" "k1 < 64"
    using assms(1-4) by (simp_all add: k0_def k1_def)
  have m0: "b0 mod 32 = k0" using k0 by (intro divmod_int(2) [where q = 6]) (simp_all add: k0_def)
  have m1: "b1 mod 64 = k1" using k1 by (intro divmod_int(2) [where q = 2]) (simp_all add: k1_def)
  have r: "r = 64 * k0 + k1" unfolding assms(5) m0 m1 by simp
  have d: "r div 64 = k0" using r k1 by (rule divmod_int(1))
  have m: "r mod 64 = k1" using r k1 by (rule divmod_int(2))
  have "0x80 \<le> r" "r < 0x800" using k0 k1 unfolding r by simp_all
  then show ?thesis unfolding d m by (simp add: k0_def k1_def)
qed

lemma enc3:
  fixes b0 b1 b2 r :: int
  assumes "0xE0 \<le> b0" "b0 < 0xF0"
    and "(if b0 = 0xE0 then 0xA0 else 0x80) \<le> b1" "b1 \<le> (if b0 = 0xED then 0x9F else 0xBF)"
    and "0x80 \<le> b2" "b2 \<le> 0xBF"
    and "r = b0 mod 16 * 4096 + b1 mod 64 * 64 + b2 mod 64"
  shows "0x800 \<le> r \<and> r < 0x10000 \<and> \<not> (0xD800 \<le> r \<and> r \<le> 0xDFFF)
     \<and> 0xE0 + r div 4096 = b0 \<and> 0x80 + r div 64 mod 64 = b1 \<and> 0x80 + r mod 64 = b2"
proof -
  define k0 where "k0 = b0 - 0xE0"
  define k1 where "k1 = b1 - 0x80"
  define k2 where "k2 = b2 - 0x80"
  have k0: "0 \<le> k0" "k0 < 16" and k1: "0 \<le> k1" "k1 < 64" and k2: "0 \<le> k2" "k2 < 64"
    using assms(1-6) by (simp_all add: k0_def k1_def k2_def split: if_splits)
  have lo: "k0 = 0 \<Longrightarrow> 32 \<le> k1" using assms(3) by (simp add: k0_def k1_def)
  have hi: "k0 = 13 \<Longrightarrow> k1 < 32" using assms(4) by (simp add: k0_def k1_def)
  have m0: "b0 mod 16 = k0" using k0 by (intro divmod_int(2) [where q = 14]) (simp_all add: k0_def)
  have m1: "b1 mod 64 = k1" using k1 by (intro divmod_int(2) [where q = 2]) (simp_all add: k1_def)
  have m2: "b2 mod 64 = k2" using k2 by (intro divmod_int(2) [where q = 2]) (simp_all add: k2_def)
  have r: "r = 4096 * k0 + (64 * k1 + k2)" unfolding assms(7) m0 m1 m2 by simp
  have r': "r = 64 * (64 * k0 + k1) + k2" unfolding r by simp
  have d0: "r div 4096 = k0" using r by (rule divmod_int(1)) (use k1 k2 in simp_all)
  have d1: "r div 64 = 64 * k0 + k1" using r' k2 by (rule divmod_int(1))
  have d2: "(64 * k0 + k1) mod 64 = k1" using refl k1 by (rule divmod_int(2))
  have m: "r mod 64 = k2" using r' k2 by (rule divmod_int(2))
  have b: "0x800 \<le> r" "r < 0x10000" "\<not> (0xD800 \<le> r \<and> r \<le> 0xDFFF)"
  proof -
    show "0x800 \<le> r" using k0 k1 k2 lo unfolding r by (cases "k0 = 0") simp_all
    show "r < 0x10000" using k0 k1 k2 unfolding r by simp
    consider "k0 \<le> 12" | "k0 = 13" | "14 \<le> k0" by linarith
    then show "\<not> (0xD800 \<le> r \<and> r \<le> 0xDFFF)"
    proof cases
      case 1
      then show ?thesis using k1 k2 unfolding r by simp
    next
      case 2
      with hi have "k1 < 32" by simp
      then show ?thesis using 2 k2 unfolding r by simp
    next
      case 3
      then show ?thesis using k1 k2 unfolding r by simp
    qed
  qed
  then show ?thesis unfolding d0 d1 d2 m by (simp add: k0_def k1_def k2_def)
qed

lemma enc4:
  fixes b0 b1 b2 b3 r :: int
  assumes "0xF0 \<le> b0" "b0 \<le> 0xF4"
    and "(if b0 = 0xF0 then 0x90 else 0x80) \<le> b1" "b1 \<le> (if b0 = 0xF4 then 0x8F else 0xBF)"
    and "0x80 \<le> b2" "b2 \<le> 0xBF" "0x80 \<le> b3" "b3 \<le> 0xBF"
    and "r = b0 mod 8 * 262144 + b1 mod 64 * 4096 + b2 mod 64 * 64 + b3 mod 64"
  shows "0x10000 \<le> r \<and> r \<le> 0x10FFFF
     \<and> 0xF0 + r div 262144 = b0 \<and> 0x80 + r div 4096 mod 64 = b1
     \<and> 0x80 + r div 64 mod 64 = b2 \<and> 0x80 + r mod 64 = b3"
proof -
  define k0 where "k0 = b0 - 0xF0"
  define k1 where "k1 = b1 - 0x80"
  define k2 where "k2 = b2 - 0x80"
  define k3 where "k3 = b3 - 0x80"
  have k0: "0 \<le> k0" "k0 \<le> 4" and k1: "0 \<le> k1" "k1 < 64" and k2: "0 \<le> k2" "k2 < 64"
    and k3: "0 \<le> k3" "k3 < 64"
    using assms(1-8) by (simp_all add: k0_def k1_def k2_def k3_def split: if_splits)
  have lo: "k0 = 0 \<Longrightarrow> 16 \<le> k1" using assms(3) by (simp add: k0_def k1_def)
  have hi: "k0 = 4 \<Longrightarrow> k1 < 16" using assms(4) by (simp add: k0_def k1_def)
  have m0: "b0 mod 8 = k0" using k0 by (intro divmod_int(2) [where q = 30]) (simp_all add: k0_def)
  have m1: "b1 mod 64 = k1" using k1 by (intro divmod_int(2) [where q = 2]) (simp_all add: k1_def)
  have m2: "b2 mod 64 = k2" using k2 by (intro divmod_int(2) [where q = 2]) (simp_all add: k2_def)
  have m3: "b3 mod 64 = k3" using k3 by (intro divmod_int(2) [where q = 2]) (simp_all add: k3_def)
  have r: "r = 262144 * k0 + (4096 * k1 + 64 * k2 + k3)" unfolding assms(9) m0 m1 m2 m3 by simp
  have r1: "r = 4096 * (64 * k0 + k1) + (64 * k2 + k3)" unfolding r by simp
  have r2: "r = 64 * (64 * (64 * k0 + k1) + k2) + k3" unfolding r by simp
  have d0: "r div 262144 = k0" using r by (rule divmod_int(1)) (use k1 k2 k3 in simp_all)
  have d1: "r div 4096 = 64 * k0 + k1" using r1 by (rule divmod_int(1)) (use k2 k3 in simp_all)
  have d1': "(64 * k0 + k1) mod 64 = k1" using refl k1 by (rule divmod_int(2))
  have d2: "r div 64 = 64 * (64 * k0 + k1) + k2" using r2 k3 by (rule divmod_int(1))
  have d2': "(64 * (64 * k0 + k1) + k2) mod 64 = k2" using refl k2 by (rule divmod_int(2))
  have m: "r mod 64 = k3" using r2 k3 by (rule divmod_int(2))
  have b: "0x10000 \<le> r" "r \<le> 0x10FFFF"
  proof -
    show "0x10000 \<le> r" using k0 k1 k2 k3 lo unfolding r by (cases "k0 = 0") simp_all
    show "r \<le> 0x10FFFF" using k0 k1 k2 k3 hi unfolding r by (cases "k0 = 4") simp_all
  qed
  then show ?thesis unfolding d0 d1 d1' d2 d2' m by (simp add: k0_def k1_def k2_def k3_def)
qed

lemma decode_shape:
  assumes "DecodeRuneInString s = (r, w)"
  shows "(s = [] \<and> r = RuneError \<and> w = 0)
   \<or> (s \<noteq> [] \<and> r = RuneError \<and> w = 1)
   \<or> (\<exists>b0 bs. s = b0 # bs \<and> b0 < 0x80 \<and> r = b0 \<and> w = 1)
   \<or> (\<exists>b0 b1 bs. s = b0 # b1 # bs \<and> 0xC2 \<le> b0 \<and> b0 < 0xE0 \<and> 0x80 \<le> b1 \<and> b1 \<le> 0xBF
         \<and> r = b0 mod 32 * 64 + b1 mod 64 \<and> w = 2)
   \<or> (\<exists>b0 b1 b2 bs. s = b0 # b1 # b2 # bs \<and> 0xE0 \<le> b0 \<and> b0 < 0xF0
         \<and> (if b0 = 0xE0 then 0xA0 else 0x80) \<le> b1 \<and> b1 \<le> (if b0 = 0xED then 0x9F else 0xBF)
         \<and> 0x80 \<le> b2 \<and> b2 \<le> 0xBF
         \<and> r = b0 mod 16 * 4096 + b1 mod 64 * 64 + b2 mod 64 \<and> w = 3)
   \<or> (\<exists>b0 b1 b2 b3 bs. s = b0 # b1 # b2 # b3 # bs \<and> 0xF0 \<le> b0 \<and> b0 \<le> 0xF4
         \<and> (if b0 = 0xF0 then 0x90 else 0x80) \<le> b1 \<and> b1 \<le> (if b0 = 0xF4 then 0x8F else 0xBF)
         \<and> 0x80 \<le> b2 \<and> b2 \<le> 0xBF \<and> 0x80 \<le> b3 \<and> b3 \<le> 0xBF
         \<and> r = b0 mod 8 * 262144 + b1 mod 64 * 4096 + b2 mod 64 * 64 + b3 mod 64 \<and> w = 4)"
proof (cases s)
  case Nil
  with assms show ?thesis by (simp add: DecodeRuneInString_def)
next
  case s0: (Cons b0 t0)
  show ?thesis
  proof (cases t0)
    case Nil
    with assms s0 show ?thesis
      by (simp add: DecodeRuneInString_def Let_def RuneSelf_def split: if_splits)
  next
    case s1: (Cons b1 t1)
    show ?thesis
    proof (cases t1)
      case Nil
      with assms s0 s1 show ?thesis
        by (simp add: DecodeRuneInString_def Let_def RuneSelf_def split: if_splits)
    next
      case s2: (Cons b2 t2)
      show ?thesis
      proof (cases t2)
        case Nil
        with assms s0 s1 s2 show ?thesis
          by (simp add: DecodeRuneInString_def Let_def RuneSelf_def split: if_splits)
      next
        case s3: (Cons b3 t3)
        with assms s0 s1 s2 show ?thesis
          by (simp add: DecodeRuneInString_def Let_def RuneSelf_def split: if_splits)
      qed
    qed
  qed
qed

lemma of_char_bounds: "0 \<le> (of_char c :: int) \<and> (of_char c :: int) < 256"
proof -
  have "(of_char c :: int) = int (of_char c)" by (simp only: of_nat_of_char)
  moreover have "(of_char c :: nat) < 256" by (rule nat_of_char_less_256)
  ultimately show ?thesis by simp
qed

lemma char_of_eqI: "(of_char c :: int) = b \<Longrightarrow> char_of b = c"
  by (auto simp: char_of_char)

lemma decode_encode:
  assumes d: "DecodeRuneInString (bytes s) = (r, w)" and ne: "r \<noteq> RuneError"
  shows "AppendRune r = take w s \<and> 0 < w \<and> w \<le> length s"
proof -
  from decode_shape [OF d] ne consider
      (one) b0 bs where "bytes s = b0 # bs" "b0 < 0x80" "r = b0" "w = 1"
    | (two) b0 b1 bs where "bytes s = b0 # b1 # bs" "0xC2 \<le> b0" "b0 < 0xE0"
        "0x80 \<le> b1" "b1 \<le> 0xBF" "r = b0 mod 32 * 64 + b1 mod 64" "w = 2"
    | (three) b0 b1 b2 bs where "bytes s = b0 # b1 # b2 # bs" "0xE0 \<le> b0" "b0 < 0xF0"
        "(if b0 = 0xE0 then 0xA0 else 0x80) \<le> b1" "b1 \<le> (if b0 = 0xED then 0x9F else 0xBF)"
        "0x80 \<le> b2" "b2 \<le> 0xBF"
        "r = b0 mod 16 * 4096 + b1 mod 64 * 64 + b2 mod 64" "w = 3"
    | (four) b0 b1 b2 b3 bs where "bytes s = b0 # b1 # b2 # b3 # bs" "0xF0 \<le> b0" "b0 \<le> 0xF4"
        "(if b0 = 0xF0 then 0x90 else 0x80) \<le> b1" "b1 \<le> (if b0 = 0xF4 then 0x8F else 0xBF)"
        "0x80 \<le> b2" "b2 \<le> 0xBF" "0x80 \<le> b3" "b3 \<le> 0xBF"
        "r = b0 mod 8 * 262144 + b1 mod 64 * 4096 + b2 mod 64 * 64 + b3 mod 64" "w = 4"
    by blast
  then show ?thesis
  proof cases
    case one
    from one(1) obtain c0 cs where s: "s = c0 # cs" and c0: "of_char c0 = b0"
      by (auto simp: bytes_def)
    have "0 \<le> b0" using of_char_bounds [of c0] c0 by simp
    then have "AppendRune r = [char_of b0]" using one(2,3) by (simp add: AppendRune_def)
    also have "\<dots> = [c0]" using c0 by (simp add: char_of_eqI)
    finally show ?thesis using s one(4) by simp
  next
    case two
    from two(1) obtain c0 c1 cs where s: "s = c0 # c1 # cs"
      and c: "of_char c0 = b0" "of_char c1 = b1"
      by (auto simp: bytes_def)
    from enc2 [OF two(2-6)]
    have e: "0x80 \<le> r" "r < 0x800" "0xC0 + r div 64 = b0" "0x80 + r mod 64 = b1"
      by simp_all
    from e(1,2) have "AppendRune r = [char_of (0xC0 + r div 64), char_of (0x80 + r mod 64)]"
      by (simp add: AppendRune_def)
    also have "\<dots> = [c0, c1]" unfolding e(3,4) using c by (simp add: char_of_eqI)
    finally show ?thesis using s two(7) by simp
  next
    case three
    from three(1) obtain c0 c1 c2 cs where s: "s = c0 # c1 # c2 # cs"
      and c: "of_char c0 = b0" "of_char c1 = b1" "of_char c2 = b2"
      by (auto simp: bytes_def)
    from enc3 [OF three(2-8)]
    have e: "0x800 \<le> r" "r < 0x10000" "\<not> (0xD800 \<le> r \<and> r \<le> 0xDFFF)"
      "0xE0 + r div 4096 = b0" "0x80 + r div 64 mod 64 = b1" "0x80 + r mod 64 = b2"
      by simp_all
    from e(1,2,3) have "AppendRune r =
        [char_of (0xE0 + r div 4096), char_of (0x80 + r div 64 mod 64), char_of (0x80 + r mod 64)]"
      by (auto simp add: AppendRune_def)
    also have "\<dots> = [c0, c1, c2]" unfolding e(4,5,6) using c by (simp add: char_of_eqI)
    finally show ?thesis using s three(9) by simp
  next
    case four
    from four(1) obtain c0 c1 c2 c3 cs where s: "s = c0 # c1 # c2 # c3 # cs"
      and c: "of_char c0 = b0" "of_char c1 = b1" "of_char c2 = b2" "of_char c3 = b3"
      by (auto simp: bytes_def)
    from enc4 [OF four(2-10)]
    have e: "0x10000 \<le> r" "r \<le> 0x10FFFF"
      "0xF0 + r div 262144 = b0" "0x80 + r div 4096 mod 64 = b1"
      "0x80 + r div 64 mod 64 = b2" "0x80 + r mod 64 = b3"
      by simp_all
    from e(1,2) have "AppendRune r =
        [char_of (0xF0 + r div 262144), char_of (0x80 + r div 4096 mod 64),
         char_of (0x80 + r div 64 mod 64), char_of (0x80 + r mod 64)]"
      by (simp add: AppendRune_def)
    also have "\<dots> = [c0, c1, c2, c3]" unfolding e(3,4,5,6) using c by (simp add: char_of_eqI)
    finally show ?thesis using s four(11) by simp
  qed
qed

lemma White_Space_decode:
  "r \<in> set White_Space \<Longrightarrow>
   DecodeRuneInString (bytes (AppendRune r @ rest)) = (r, length (AppendRune r))"
  unfolding White_Space_def
  apply (simp only: list.set insert_iff empty_iff)
  apply (elim disjE)
  apply (simp_all add: AppendRune_def bytes_def DecodeRuneInString_def RuneSelf_def Let_def of_char_of)
  done

lemma spaceEncodings_no_suffix:
  "\<forall>q\<in>set spaceEncodings. \<forall>q'\<in>set spaceEncodings. suffix q q' \<longrightarrow> q = q'"
  by code_simp

lemma White_Space_not_RuneError: "RuneError \<notin> set White_Space"
  by (simp add: White_Space_def RuneError_def)

text \<open>
  A string is one of the encodings exactly when it decodes, as a whole, to a white-space
  rune. So a step of the trimming at the start removes the first rune when
  \<^verbatim>\<open>unicode.IsSpace\<close> holds for it, as the loop over \<^verbatim>\<open>range s\<close> in
  \<^verbatim>\<open>strings.TrimLeftFunc\<close> does, and a step at the end removes the bytes that
  \<^verbatim>\<open>utf8.DecodeLastRuneInString\<close> decodes to a white-space rune: the sequence at
  the end of the string that is one well-formed encoding.
\<close>

lemma stripOne_Some:
  "stripOne qs s = Some rest \<Longrightarrow>
   \<exists>q\<in>set qs. q \<noteq> [] \<and> prefix q s \<and> rest = drop (length q) s"
  by (induction qs) (auto split: if_splits)

lemma stripOne_match:
  assumes "q \<in> set qs" "q \<noteq> []" "prefix q s"
  shows "\<exists>rest. stripOne qs s = Some rest"
proof (cases "stripOne qs s")
  case None
  with assms show ?thesis by (auto simp: stripOne_None_iff)
next
  case (Some rest)
  then show ?thesis by blast
qed

lemma spaceEncodings_prefix:
  assumes "q \<in> set spaceEncodings" and "prefix q s"
  shows "\<exists>r. IsSpace r \<and> q = AppendRune r \<and> DecodeRuneInString (bytes s) = (r, length q)"
proof -
  from assms(1) obtain r where r: "r \<in> set White_Space" and q: "q = AppendRune r"
    by (auto simp: spaceEncodings_def)
  from assms(2) obtain rest where s: "s = q @ rest" by (auto simp: prefix_def)
  from r have "DecodeRuneInString (bytes (AppendRune r @ rest)) = (r, length (AppendRune r))"
    by (rule White_Space_decode)
  with r q s show ?thesis by (auto simp: IsSpace_def)
qed

lemma spaceEncodings_iff:
  "q \<in> set spaceEncodings \<longleftrightarrow>
     q \<noteq> [] \<and> (\<exists>r. IsSpace r \<and> DecodeRuneInString (bytes q) = (r, length q))"
proof
  assume q: "q \<in> set spaceEncodings"
  from spaceEncodings_prefix [OF q prefix_order.refl] obtain r where
    r: "IsSpace r" "q = AppendRune r" "DecodeRuneInString (bytes q) = (r, length q)"
    by blast
  from r(2) have "q \<noteq> []" by (simp add: AppendRune_nonempty)
  with r show "q \<noteq> [] \<and> (\<exists>r. IsSpace r \<and> DecodeRuneInString (bytes q) = (r, length q))"
    by blast
next
  assume "q \<noteq> [] \<and> (\<exists>r. IsSpace r \<and> DecodeRuneInString (bytes q) = (r, length q))"
  then obtain r where r: "IsSpace r" and d: "DecodeRuneInString (bytes q) = (r, length q)"
    by blast
  from r have "r \<noteq> RuneError" using White_Space_not_RuneError by (auto simp: IsSpace_def)
  with d have "AppendRune r = take (length q) q" by (simp add: decode_encode)
  then have "q = AppendRune r" by simp
  with r show "q \<in> set spaceEncodings" by (simp add: spaceEncodings_def IsSpace_def)
qed

lemma stripOne_spaceEncodings:
  assumes "s \<noteq> []"
  shows "stripOne spaceEncodings s =
     (case DecodeRuneInString (bytes s) of (r, w) \<Rightarrow> if IsSpace r then Some (drop w s) else None)"
proof -
  obtain r w where d: "DecodeRuneInString (bytes s) = (r, w)"
    by (cases "DecodeRuneInString (bytes s)")
  have some: "IsSpace r \<and> rest = drop w s" if "stripOne spaceEncodings s = Some rest" for rest
  proof -
    from stripOne_Some [OF that] obtain q where
      q: "q \<in> set spaceEncodings" "prefix q s" "rest = drop (length q) s"
      by blast
    from spaceEncodings_prefix [OF q(1,2)] d q(3) show ?thesis by auto
  qed
  show ?thesis
  proof (cases "IsSpace r")
    case True
    then have "r \<noteq> RuneError" using White_Space_not_RuneError by (auto simp: IsSpace_def)
    with d have e: "AppendRune r = take w s" "0 < w" "w \<le> length s"
      by (simp_all add: decode_encode)
    from True have "take w s \<in> set spaceEncodings"
      unfolding e(1) [symmetric] by (simp add: spaceEncodings_def IsSpace_def)
    moreover have "take w s \<noteq> []" using e(2) assms by simp
    moreover have "prefix (take w s) s" by (rule take_is_prefix)
    ultimately obtain rest where rest: "stripOne spaceEncodings s = Some rest"
      using stripOne_match by blast
    with some have "rest = drop w s" by blast
    with rest True d show ?thesis by simp
  next
    case False
    have "stripOne spaceEncodings s = None"
    proof (cases "stripOne spaceEncodings s")
      case None
      then show ?thesis .
    next
      case (Some rest)
      with some False show ?thesis by blast
    qed
    with False d show ?thesis by simp
  qed
qed

lemma trimWith_Nil: "trimWith qs [] = []"
proof -
  have "stripOne qs [] = None" by (auto simp: stripOne_None_iff)
  then show ?thesis by (rule trimWith_id)
qed

lemma TrimLeftSpace_decode:
  "TrimLeftSpace s =
     (if s = [] then []
      else case DecodeRuneInString (bytes s) of
             (r, w) \<Rightarrow> if IsSpace r then TrimLeftSpace (drop w s) else s)"
proof (cases "s = []")
  case True
  then show ?thesis by (simp add: TrimLeftSpace_def trimWith_Nil)
next
  case False
  show ?thesis
    unfolding TrimLeftSpace_def
    by (subst trimWith.simps) (simp add: stripOne_spaceEncodings [OF False] False split: prod.splits)
qed

lemma suffix_total:
  assumes "suffix a s" and "suffix b s"
  shows "suffix a b \<or> suffix b a"
proof -
  from assms have "prefix (rev a) (rev s)" "prefix (rev b) (rev s)"
    by (simp_all add: suffix_to_prefix)
  then have "prefix (rev a) (rev b) \<or> prefix (rev b) (rev a)"
    by (rule prefix_same_cases)
  then show ?thesis by (simp add: suffix_to_prefix)
qed

lemma stripOne_rev_spaceEncodings:
  assumes "q \<in> set spaceEncodings"
  shows "stripOne (map rev spaceEncodings) (rev (p @ q)) = Some (rev p)"
proof -
  from assms have "q \<noteq> []" by (auto simp: spaceEncodings_def AppendRune_nonempty)
  then have "rev q \<in> set (map rev spaceEncodings)" "rev q \<noteq> []" "prefix (rev q) (rev (p @ q))"
    using assms by simp_all
  then obtain t where t: "stripOne (map rev spaceEncodings) (rev (p @ q)) = Some t"
    using stripOne_match by blast
  from stripOne_Some [OF t] obtain q' where q': "q' \<in> set spaceEncodings"
    "prefix (rev q') (rev (p @ q))" "t = drop (length (rev q')) (rev (p @ q))"
    by auto
  from q'(2) have "suffix q' (p @ q)" by (simp add: suffix_to_prefix)
  moreover have "suffix q (p @ q)" by (simp add: suffix_def)
  ultimately have "suffix q' q \<or> suffix q q'" by (rule suffix_total)
  with assms q'(1) have "q' = q" using spaceEncodings_no_suffix by blast
  with q'(3) have "t = rev p" by simp
  with t show ?thesis by simp
qed

lemma TrimRightSpace_strip:
  assumes "q \<in> set spaceEncodings"
  shows "TrimRightSpace (p @ q) = TrimRightSpace p"
  unfolding TrimRightSpace_def
  by (subst trimWith.simps) (simp only: stripOne_rev_spaceEncodings [OF assms] option.case)

lemma TrimRightSpace_stop:
  assumes "\<forall>q\<in>set spaceEncodings. \<not> suffix q s"
  shows "TrimRightSpace s = s"
proof -
  have "stripOne (map rev spaceEncodings) (rev s) = None"
    using assms by (auto simp: stripOne_None_iff suffix_to_prefix)
  then show ?thesis by (rule TrimRightSpace_id)
qed

text \<open>Some strings, among them malformed ones: an overlong and a truncated sequence stay.\<close>

lemma example_TrimSpace_nbsp: "TrimSpace ([CHR 0xC2, CHR 0xA0] @ ''# c'') = ''# c''"
  by code_simp

lemma example_TrimSpace_unicode:
  "TrimSpace (''  a b '' @ [CHR 0xE3, CHR 0x80, CHR 0x80, CHR 0x0A, CHR 0xC2, CHR 0x85]) = ''a b''"
  by code_simp

lemma example_TrimSpace_malformed:
  "TrimSpace ([CHR 0xC0, CHR 0xA0] @ ''x'' @ [CHR 0xE2, CHR 0x80])
     = [CHR 0xC0, CHR 0xA0] @ ''x'' @ [CHR 0xE2, CHR 0x80]"
  by code_simp

lemma example_ToUpper_ascii: "ToUpper tbl ''get-x1'' = ''GET-X1''"
  by code_simp

lemma example_ToUpper_latin1:
  "ToUpper example_UpperCase (''caf'' @ [CHR 0xC3, CHR 0xA9]) = ''CAF'' @ [CHR 0xC3, CHR 0x89]"
  by code_simp

lemma example_ToUpper_malformed:
  "ToUpper example_UpperCase (''a'' @ [CHR 0xFF] @ ''b'')
     = ''A'' @ [CHR 0xEF, CHR 0xBF, CHR 0xBD] @ ''B''"
  apply (simp add: ToUpper_def isASCII_def RuneSelf_def Map_runes_def bytes_def
      DecodeRuneInString_def RuneError_def unicode_ToUpper_def example_UpperCase_def
      AppendRune_def toUpperByte_def)
  apply code_simp
  done

lemma example_runes:
  "runes [0xF0, 0x9F, 0x98, 0x80, 0x41, 0xED, 0xA0, 0x80, 0xE2, 0x82]
     = [0x1F600, 0x41, 0xFFFD, 0xFFFD, 0xFFFD, 0xFFFD, 0xFFFD]"
  by code_simp

section \<open>Properties of the catalog builder\<close>

lemma lookup_upd: "lookupBool (seen(u \<mapsto> True)) k = (k = u \<or> lookupBool seen k)"
  by (simp add: lookupBool_def)

lemma normalizeLoop_step_new:
  "ToUpper tbl (TrimSpace m) \<noteq> [] \<Longrightarrow> \<not> lookupBool seen (ToUpper tbl (TrimSpace m)) \<Longrightarrow>
   normalizeLoop tbl (m # ms) acc seen =
     normalizeLoop tbl ms (acc @ [ToUpper tbl (TrimSpace m)]) (seen(ToUpper tbl (TrimSpace m) \<mapsto> True))"
  by (simp add: Let_def)

lemma normalizeLoop_step_old:
  "ToUpper tbl (TrimSpace m) = [] \<or> lookupBool seen (ToUpper tbl (TrimSpace m)) \<Longrightarrow>
   normalizeLoop tbl (m # ms) acc seen = normalizeLoop tbl ms acc seen"
  by (auto simp add: Let_def)


lemma seen_extend:
  "\<forall>k. lookupBool seen k = (k \<in> set acc) \<Longrightarrow>
   \<forall>k. lookupBool (seen(u \<mapsto> True)) k = (k \<in> set (acc @ [u]))"
  by (simp add: lookup_upd)

lemma normalizeLoop_distinct:
  "distinct acc \<Longrightarrow> [] \<notin> set acc \<Longrightarrow> \<forall>k. lookupBool seen k = (k \<in> set acc) \<Longrightarrow>
   distinct (normalizeLoop tbl ms acc seen) \<and> [] \<notin> set (normalizeLoop tbl ms acc seen)"
proof (induction ms arbitrary: acc seen)
  case Nil
  then show ?case by simp
next
  case (Cons m ms)
  let ?u = "ToUpper tbl (TrimSpace m)"
  have mem: "lookupBool seen ?u = (?u \<in> set acc)"
    using Cons.prems(3) by (rule spec)
  show ?case
  proof (cases "?u \<noteq> [] \<and> \<not> lookupBool seen ?u")
    case True
    then have ne: "?u \<noteq> []" and new: "\<not> lookupBool seen ?u"
      by (rule conjunct1, rule conjunct2)
    from new mem have "?u \<notin> set acc" by simp
    then have d: "distinct (acc @ [?u])" using Cons.prems(1) by simp
    have "[] \<noteq> ?u" using ne by (rule not_sym)
    then have n: "[] \<notin> set (acc @ [?u])" using Cons.prems(2) by simp
    have step: "normalizeLoop tbl (m # ms) acc seen =
        normalizeLoop tbl ms (acc @ [?u]) (seen(?u \<mapsto> True))"
      using ne new by (rule normalizeLoop_step_new)
    show ?thesis unfolding step
      using d n seen_extend [OF Cons.prems(3)] by (rule Cons.IH)
  next
    case False
    then have "?u = [] \<or> lookupBool seen ?u" by simp
    then have step: "normalizeLoop tbl (m # ms) acc seen = normalizeLoop tbl ms acc seen"
      by (rule normalizeLoop_step_old)
    show ?thesis unfolding step using Cons.prems by (rule Cons.IH)
  qed
qed


lemma set_normalizeLoop:
  "\<forall>k. lookupBool seen k = (k \<in> set acc) \<Longrightarrow>
   set (normalizeLoop tbl ms acc seen) =
     set acc \<union> {u. u \<noteq> [] \<and> u \<in> (\<lambda>m. ToUpper tbl (TrimSpace m)) ` set ms}"
proof (induction ms arbitrary: acc seen)
  case Nil
  then show ?case by simp
next
  case (Cons m ms)
  let ?u = "ToUpper tbl (TrimSpace m)"
  let ?N = "\<lambda>ms. {u. u \<noteq> [] \<and> u \<in> (\<lambda>m. ToUpper tbl (TrimSpace m)) ` set ms}"
  have mem: "lookupBool seen ?u = (?u \<in> set acc)"
    using Cons.prems by (rule spec)
  have cons: "?N (m # ms) = (if ?u \<noteq> [] then insert ?u (?N ms) else ?N ms)"
    by auto
  show ?case
  proof (cases "?u \<noteq> [] \<and> \<not> lookupBool seen ?u")
    case True
    then have ne: "?u \<noteq> []" and new: "\<not> lookupBool seen ?u"
      by (rule conjunct1, rule conjunct2)
    have step: "normalizeLoop tbl (m # ms) acc seen =
        normalizeLoop tbl ms (acc @ [?u]) (seen(?u \<mapsto> True))"
      using ne new by (rule normalizeLoop_step_new)
    have "set (normalizeLoop tbl ms (acc @ [?u]) (seen(?u \<mapsto> True))) = set (acc @ [?u]) \<union> ?N ms"
      using seen_extend [OF Cons.prems] by (rule Cons.IH)
    then show ?thesis unfolding step cons using ne by simp
  next
    case False
    then have old: "?u = [] \<or> lookupBool seen ?u" by simp
    then have step: "normalizeLoop tbl (m # ms) acc seen = normalizeLoop tbl ms acc seen"
      by (rule normalizeLoop_step_old)
    have "set (normalizeLoop tbl ms acc seen) = set acc \<union> ?N ms"
      using Cons.prems by (rule Cons.IH)
    then show ?thesis unfolding step cons using old mem by auto
  qed
qed

lemma getMethods_Inr:
  assumes "getMethods e c l t = (Inr ms, t')"
  shows "\<exists>ws os. (if Wordlist c \<noteq> [] then readLinesFromFile e (Wordlist c) = Inr ws else ws = [])
            \<and> ms = sort (normalizeLoop (unicode_UpperCase e)
                    (DefaultMethods @ ws @ os) [] Map.empty)"
proof (cases "Wordlist c \<noteq> []")
  case True
  show ?thesis
  proof (cases "readLinesFromFile e (Wordlist c)")
    case (Inl err)
    with True assms show ?thesis by (simp add: getMethods_def Let_def)
  next
    case (Inr ws)
    with True assms show ?thesis
      by (simp add: getMethods_def Let_def split: prod.splits sum.splits if_splits)
         (metis append_Nil2)+
  qed
next
  case False
  with assms show ?thesis
    by (simp add: getMethods_def Let_def split: prod.splits sum.splits if_splits)
       (metis append_Nil2)+
qed

lemma getMethods_Inl:
  "(\<exists>err t'. getMethods e c l t = (Inl err, t')) \<longleftrightarrow>
   (Wordlist c \<noteq> [] \<and> (\<exists>err. readLinesFromFile e (Wordlist c) = Inl err))"
  by (simp add: getMethods_def Let_def split: prod.splits sum.splits if_splits)

lemma set_scanLines:
  "set (scanLines texts acc) =
     set acc \<union> {TrimSpace x | x. x \<in> set texts \<and> TrimSpace x \<noteq> [] \<and> \<not> HasPrefix (TrimSpace x) ''#''}"
proof (induction texts arbitrary: acc)
  case Nil
  show ?case by simp
next
  case (Cons x xs)
  show ?case
  proof (cases "TrimSpace x \<noteq> [] \<and> \<not> HasPrefix (TrimSpace x) ''#''")
    case True
    then have "scanLines (x # xs) acc = scanLines xs (acc @ [TrimSpace x])"
      by (simp add: Let_def)
    then show ?thesis using Cons.IH [of "acc @ [TrimSpace x]"] True by auto
  next
    case False
    then have "scanLines (x # xs) acc = scanLines xs acc"
      by (auto simp add: Let_def)
    then show ?thesis using Cons.IH [of acc] False by auto
  qed
qed

lemma defaults_normal: "\<forall>m\<in>set DefaultMethods. ToUpper tbl (TrimSpace m) = m"
  by code_simp

lemma defaults_nonempty: "\<forall>m\<in>set DefaultMethods. m \<noteq> []"
  by code_simp

lemma example_getMethods:
  "fst (getMethods example_env example_config example_logger no_trace) = Inr example_catalog"
  by code_simp

lemma empty_seen: "\<forall>k. lookupBool Map.empty k = (k \<in> set [])"
  by (simp add: lookupBool_def)

text \<open>
  C3: whatever the wordlist lines and the tokens announced by the server are, the catalog
  that \<open>getMethods\<close> returns is sorted ascending, holds no empty string and holds no
  method twice.
\<close>

theorem getMethods_sorted_distinct:
  assumes "getMethods e config logger t = (Inr catalog, t')"
  shows "sorted catalog \<and> [] \<notin> set catalog \<and> distinct catalog"
proof -
  from getMethods_Inr [OF assms] obtain ws os where
    c: "catalog = sort (normalizeLoop (unicode_UpperCase e)
            (DefaultMethods @ ws @ os) [] Map.empty)"
    by (elim exE conjE)
  have "distinct [] \<and> ([]::string) \<notin> set []" by simp
  then have "distinct (normalizeLoop (unicode_UpperCase e)
      (DefaultMethods @ ws @ os) [] Map.empty) \<and>
      [] \<notin> set (normalizeLoop (unicode_UpperCase e)
          (DefaultMethods @ ws @ os) [] Map.empty)"
    using empty_seen by (intro normalizeLoop_distinct) simp_all
  then show ?thesis unfolding c by simp
qed

theorem getMethods_sorted_distinct_witness:
  "\<exists>t'. getMethods example_env example_config example_logger no_trace = (Inr example_catalog, t')
     \<and> sorted example_catalog \<and> [] \<notin> set example_catalog \<and> distinct example_catalog"
proof -
  have ev: "getMethods example_env example_config example_logger no_trace =
      (Inr example_catalog, snd (getMethods example_env example_config example_logger no_trace))"
    using example_getMethods by (metis prod.collapse)
  from getMethods_sorted_distinct [OF ev] ev show ?thesis by blast
qed

text \<open>
  C4: when no wordlist is configured, or the configured one is read without error,
  \<open>getMethods\<close> returns a catalog; it holds every method of the built-in list, so it
  is not empty, and the trimmed, upper-cased form of every line of the wordlist that is
  neither blank nor a comment. The lines are arbitrary byte strings, and the case tables
  are arbitrary.
\<close>

theorem getMethods_contains:
  assumes "Wordlist config = [] \<or> os_Open e (Wordlist config) = Scanned texts None"
  shows "\<exists>catalog t'. getMethods e config logger t = (Inr catalog, t')
           \<and> set DefaultMethods \<subseteq> set catalog \<and> catalog \<noteq> []
           \<and> (Wordlist config \<noteq> [] \<longrightarrow>
                (\<forall>x\<in>set texts. TrimSpace x \<noteq> [] \<and> \<not> HasPrefix (TrimSpace x) ''#''
                    \<longrightarrow> ToUpper (unicode_UpperCase e) (TrimSpace x) \<in> set catalog))"
proof -
  have rd: "Wordlist config \<noteq> [] \<Longrightarrow>
      readLinesFromFile e (Wordlist config) = Inr (scanLines texts [])"
    using assms by (simp add: readLinesFromFile_def)
  obtain r t' where g: "getMethods e config logger t = (r, t')"
    by (cases "getMethods e config logger t")
  have "\<not> (\<exists>err t'. getMethods e config logger t = (Inl err, t'))"
    unfolding getMethods_Inl using rd by auto
  with g obtain catalog where r: "r = Inr catalog" by (cases r) auto
  from getMethods_Inr [OF g [unfolded r]] obtain ws os where
    ws: "if Wordlist config \<noteq> [] then readLinesFromFile e (Wordlist config) = Inr ws else ws = []"
    and c: "catalog = sort (normalizeLoop (unicode_UpperCase e)
            (DefaultMethods @ ws @ os) [] Map.empty)"
    by (elim exE conjE)
  let ?N = "\<lambda>ms. {u. u \<noteq> [] \<and> u \<in> (\<lambda>m. ToUpper (unicode_UpperCase e) (TrimSpace m)) ` set ms}"
  have sc: "set catalog = ?N (DefaultMethods @ ws @ os)"
    unfolding c using set_normalizeLoop [OF empty_seen] by simp
  have d: "set DefaultMethods \<subseteq> set catalog"
  proof
    fix m assume m: "m \<in> set DefaultMethods"
    then have "ToUpper (unicode_UpperCase e) (TrimSpace m) = m" "m \<noteq> []"
      using defaults_normal defaults_nonempty by simp_all
    then show "m \<in> set catalog" unfolding sc using m by force
  qed
  have ne: "catalog \<noteq> []"
    using d by (auto simp: DefaultMethods_def)
  have w: "ToUpper (unicode_UpperCase e) (TrimSpace x) \<in> set catalog"
    if wl: "Wordlist config \<noteq> []" and x: "x \<in> set texts"
      and x1: "TrimSpace x \<noteq> []" and x2: "\<not> HasPrefix (TrimSpace x) ''#''" for x
  proof -
    from ws wl rd have "ws = scanLines texts []" by simp
    then have "TrimSpace x \<in> set ws" using x x1 x2 by (auto simp: set_scanLines)
    moreover have "ToUpper (unicode_UpperCase e) (TrimSpace (TrimSpace x)) \<noteq> []"
      using x1 by (simp add: TrimSpace_idem ToUpper_Nil_iff)
    ultimately have "ToUpper (unicode_UpperCase e) (TrimSpace (TrimSpace x)) \<in> set catalog"
      unfolding sc by force
    then show ?thesis by (simp add: TrimSpace_idem)
  qed
  show ?thesis using g r d ne w by blast
qed

theorem getMethods_contains_witness:
  "os_Open example_env_unicode (Wordlist example_config) =
     Scanned [[CHR 0xC2, CHR 0xA0] @ ''# c'',
              ''caf'' @ [CHR 0xC3, CHR 0xA9, CHR 0xE3, CHR 0x80, CHR 0x80],
              ''  cuStom ''] None
   \<and> HasPrefix (TrimSpace ([CHR 0xC2, CHR 0xA0] @ ''# c'')) ''#''
   \<and> (\<exists>catalog t'. getMethods example_env_unicode example_config example_logger no_trace
          = (Inr catalog, t')
        \<and> set DefaultMethods \<subseteq> set catalog \<and> catalog \<noteq> []
        \<and> ''CAF'' @ [CHR 0xC3, CHR 0x89] \<in> set catalog \<and> ''CUSTOM'' \<in> set catalog)"
proof -
  let ?cafe = "''caf'' @ [CHR 0xC3, CHR 0xA9, CHR 0xE3, CHR 0x80, CHR 0x80]"
  let ?texts = "[[CHR 0xC2, CHR 0xA0] @ ''# c'', ?cafe, ''  cuStom '']"
  let ?tbl = "unicode_UpperCase example_env_unicode"
  have o: "os_Open example_env_unicode (Wordlist example_config) = Scanned ?texts None"
    by (simp add: example_env_unicode_def)
  have wl: "Wordlist example_config \<noteq> []"
    by (simp add: example_config_def)
  have c: "HasPrefix (TrimSpace ([CHR 0xC2, CHR 0xA0] @ ''# c'')) ''#''"
    by code_simp
  have x1: "?cafe \<in> set ?texts" by simp
  have t1: "TrimSpace ?cafe \<noteq> [] \<and> \<not> HasPrefix (TrimSpace ?cafe) ''#''"
    by code_simp
  have u1: "ToUpper ?tbl (TrimSpace ?cafe) = ''CAF'' @ [CHR 0xC3, CHR 0x89]"
    by code_simp
  have x2: "''  cuStom '' \<in> set ?texts" by simp
  have t2: "TrimSpace ''  cuStom '' \<noteq> [] \<and> \<not> HasPrefix (TrimSpace ''  cuStom '') ''#''"
    by code_simp
  have u2: "ToUpper ?tbl (TrimSpace ''  cuStom '') = ''CUSTOM''"
    by code_simp
  from getMethods_contains [OF disjI2, OF o, of example_logger no_trace]
  obtain catalog t' where
    g: "getMethods example_env_unicode example_config example_logger no_trace
          = (Inr catalog, t')"
    and d: "set DefaultMethods \<subseteq> set catalog" and ne: "catalog \<noteq> []"
    and w: "Wordlist example_config \<noteq> [] \<longrightarrow>
            (\<forall>x\<in>set ?texts. TrimSpace x \<noteq> [] \<and> \<not> HasPrefix (TrimSpace x) ''#''
               \<longrightarrow> ToUpper ?tbl (TrimSpace x) \<in> set catalog)"
    by (elim exE conjE)
  from w wl have a: "\<forall>x\<in>set ?texts. TrimSpace x \<noteq> [] \<and> \<not> HasPrefix (TrimSpace x) ''#''
      \<longrightarrow> ToUpper ?tbl (TrimSpace x) \<in> set catalog" by (rule mp)
  from bspec [OF a x1] t1 have "ToUpper ?tbl (TrimSpace ?cafe) \<in> set catalog"
    by (rule mp)
  then have m1: "''CAF'' @ [CHR 0xC3, CHR 0x89] \<in> set catalog" unfolding u1 .
  from bspec [OF a x2] t2 have "ToUpper ?tbl (TrimSpace ''  cuStom '') \<in> set catalog"
    by (rule mp)
  then have m2: "''CUSTOM'' \<in> set catalog" unfolding u2 .
  from o c g d ne m1 m2 show ?thesis by (intro conjI exI)
qed

section \<open>Properties of safe mode\<close>

lemma safeLoop_filter:
  "safeLoop methods acc = acc @ filter (\<lambda>m. \<not> lookupBool DangerousMethods m) methods"
  by (induction methods arbitrary: acc) simp_all

lemma dangerous_iff:
  "lookupBool DangerousMethods m \<longleftrightarrow>
     m \<in> {''DELETE'', ''COPY'', ''PUT'', ''PATCH'', ''UNCHECKOUT''}"
  by (simp add: lookupBool_def DangerousMethods_def)

lemma safeModeFilter_fst:
  "fst (safeModeFilter config logger methods t) =
     (if SafeOnly config then filter (\<lambda>m. \<not> lookupBool DangerousMethods m) methods else methods)"
  by (simp add: safeModeFilter_def safeLoop_filter)

text \<open>
  C5: with safe mode on, the filter is idempotent, returns a subset of the catalog,
  drops exactly the methods flagged in \<open>DangerousMethods\<close> and keeps the others in
  their order; with safe mode off the catalog passes through unchanged.
\<close>

theorem safeModeFilter_props:
  "(SafeOnly config \<longrightarrow>
      fst (safeModeFilter config logger (fst (safeModeFilter config logger C t)) t')
        = fst (safeModeFilter config logger C t)
    \<and> set (fst (safeModeFilter config logger C t)) \<subseteq> set C
    \<and> set (fst (safeModeFilter config logger C t)) = set C - {m. lookupBool DangerousMethods m}
    \<and> fst (safeModeFilter config logger C t) = filter (\<lambda>m. \<not> lookupBool DangerousMethods m) C
    \<and> subseq (fst (safeModeFilter config logger C t)) C)
   \<and> (\<not> SafeOnly config \<longrightarrow> fst (safeModeFilter config logger C t) = C)"
proof (rule conjI; rule impI)
  let ?safe = "\<lambda>m. \<not> lookupBool DangerousMethods m"
  assume on: "SafeOnly config"
  have f: "fst (safeModeFilter config logger X u) = filter ?safe X" for X u
    using on by (simp add: safeModeFilter_fst)
  have idem: "fst (safeModeFilter config logger (fst (safeModeFilter config logger C t)) t')
      = fst (safeModeFilter config logger C t)"
    unfolding f by simp
  have sub: "set (fst (safeModeFilter config logger C t)) \<subseteq> set C"
    unfolding f by (rule filter_is_subset)
  have exact: "set (fst (safeModeFilter config logger C t))
      = set C - {m. lookupBool DangerousMethods m}"
    unfolding f by auto
  have order: "subseq (fst (safeModeFilter config logger C t)) C"
    unfolding f by (rule subseq_filter_left)
  from idem sub exact f [of C t] order
  show "fst (safeModeFilter config logger (fst (safeModeFilter config logger C t)) t')
        = fst (safeModeFilter config logger C t)
    \<and> set (fst (safeModeFilter config logger C t)) \<subseteq> set C
    \<and> set (fst (safeModeFilter config logger C t)) = set C - {m. lookupBool DangerousMethods m}
    \<and> fst (safeModeFilter config logger C t) = filter ?safe C
    \<and> subseq (fst (safeModeFilter config logger C t)) C"
    by (intro conjI)
next
  assume "\<not> SafeOnly config"
  then show "fst (safeModeFilter config logger C t) = C"
    by (simp add: safeModeFilter_fst)
qed

lemma ex_filter:
  "filter (\<lambda>m. \<not> lookupBool DangerousMethods m) [''GET'', ''PUT'', ''POST'', ''DELETE'', ''GET'']
     = [''GET'', ''POST'', ''GET'']"
  by code_simp

theorem safeModeFilter_props_witness:
  "SafeOnly (example_config\<lparr>SafeOnly := True\<rparr>)
   \<and> fst (safeModeFilter (example_config\<lparr>SafeOnly := True\<rparr>) example_logger
        [''GET'', ''PUT'', ''POST'', ''DELETE'', ''GET''] no_trace) = [''GET'', ''POST'', ''GET'']
   \<and> \<not> SafeOnly example_config
   \<and> fst (safeModeFilter example_config example_logger
        [''GET'', ''PUT'', ''POST'', ''DELETE'', ''GET''] no_trace)
       = [''GET'', ''PUT'', ''POST'', ''DELETE'', ''GET'']"
proof -
  let ?C = "[''GET'', ''PUT'', ''POST'', ''DELETE'', ''GET'']"
  have s: "SafeOnly (example_config\<lparr>SafeOnly := True\<rparr>)" by simp
  have n: "\<not> SafeOnly example_config" by (simp add: example_config_def)
  from safeModeFilter_props [of "example_config\<lparr>SafeOnly := True\<rparr>" example_logger ?C no_trace no_trace] s
  have "fst (safeModeFilter (example_config\<lparr>SafeOnly := True\<rparr>) example_logger ?C no_trace)
      = filter (\<lambda>m. \<not> lookupBool DangerousMethods m) ?C"
    by blast
  then have a: "fst (safeModeFilter (example_config\<lparr>SafeOnly := True\<rparr>) example_logger ?C no_trace)
      = [''GET'', ''POST'', ''GET'']"
    unfolding ex_filter .
  from safeModeFilter_props [of example_config example_logger ?C no_trace no_trace] n
  have b: "fst (safeModeFilter example_config example_logger ?C no_trace) = ?C"
    by blast
  from s a n b show ?thesis by (intro conjI)
qed

lemma getMethods_set:
  assumes "getMethods e config logger t = (Inr catalog, t')"
  shows "\<exists>ws os.
     (if Wordlist config \<noteq> [] then readLinesFromFile e (Wordlist config) = Inr ws else ws = [])
     \<and> set catalog = {u. u \<noteq> [] \<and>
         u \<in> (\<lambda>m. ToUpper (unicode_UpperCase e) (TrimSpace m)) ` set (DefaultMethods @ ws @ os)}"
proof -
  from getMethods_Inr [OF assms] obtain ws os where
    ws: "if Wordlist config \<noteq> [] then readLinesFromFile e (Wordlist config) = Inr ws else ws = []"
    and c: "catalog = sort (normalizeLoop (unicode_UpperCase e)
            (DefaultMethods @ ws @ os) [] Map.empty)"
    by (elim exE conjE)
  have "set catalog = {u. u \<noteq> [] \<and>
         u \<in> (\<lambda>m. ToUpper (unicode_UpperCase e) (TrimSpace m)) ` set (DefaultMethods @ ws @ os)}"
    unfolding c using set_normalizeLoop [OF empty_seen] by simp
  with ws show ?thesis by blast
qed

lemma getMethods_defaults:
  assumes "getMethods e config logger t = (Inr catalog, t')"
  shows "set DefaultMethods \<subseteq> set catalog"
proof
  fix m assume m: "m \<in> set DefaultMethods"
  from getMethods_set [OF assms] obtain ws os where
    sc: "set catalog = {u. u \<noteq> [] \<and>
         u \<in> (\<lambda>m. ToUpper (unicode_UpperCase e) (TrimSpace m)) ` set (DefaultMethods @ ws @ os)}"
    by (elim exE conjE)
  from m have "ToUpper (unicode_UpperCase e) (TrimSpace m) = m" "m \<noteq> []"
    using defaults_normal defaults_nonempty by simp_all
  then show "m \<in> set catalog" unfolding sc using m by force
qed

lemma dangerous_defaults:
  "{''DELETE'', ''COPY'', ''PUT'', ''PATCH'', ''UNCHECKOUT''} \<subseteq> set DefaultMethods"
  by code_simp

lemma mutating_defaults:
  "{''POST'', ''MKCOL'', ''MOVE'', ''LOCK'', ''UNLOCK''}
     \<subseteq> set DefaultMethods - {''DELETE'', ''COPY'', ''PUT'', ''PATCH'', ''UNCHECKOUT''}"
  by code_simp

lemma dangerous_set:
  "{m. lookupBool DangerousMethods m} = {''DELETE'', ''COPY'', ''PUT'', ''PATCH'', ''UNCHECKOUT''}"
  by (rule set_eqI) (simp only: mem_Collect_eq dangerous_iff)

lemma removed_exactly: "D \<subseteq> C \<Longrightarrow> C - (C - D) = (D::'a set)"
  by blast

lemma kept_others: "X \<subseteq> C \<Longrightarrow> X - D \<subseteq> C - (D::'a set)"
  by blast

text \<open>
  C10: safe mode removes exactly DELETE, COPY, PUT, PATCH and UNCHECKOUT from the
  catalog; every other method of the built-in list, POST, MKCOL, MOVE, LOCK and UNLOCK
  among them, stays in the list that is dispatched.
\<close>

theorem safe_mode_removes_exactly:
  assumes "getMethods e config logger t = (Inr catalog, t')" and "SafeOnly config"
  shows "{m. lookupBool DangerousMethods m} = {''DELETE'', ''COPY'', ''PUT'', ''PATCH'', ''UNCHECKOUT''}
    \<and> set catalog - set (fst (safeModeFilter config logger catalog t'))
        = {''DELETE'', ''COPY'', ''PUT'', ''PATCH'', ''UNCHECKOUT''}
    \<and> set DefaultMethods - {''DELETE'', ''COPY'', ''PUT'', ''PATCH'', ''UNCHECKOUT''}
        \<subseteq> set (fst (safeModeFilter config logger catalog t'))
    \<and> {''POST'', ''MKCOL'', ''MOVE'', ''LOCK'', ''UNLOCK''}
        \<subseteq> set (fst (safeModeFilter config logger catalog t'))"
proof -
  have "set (fst (safeModeFilter config logger catalog t'))
      = set catalog - {m. lookupBool DangerousMethods m}"
    using assms(2) by (auto simp: safeModeFilter_fst)
  then have f: "set (fst (safeModeFilter config logger catalog t'))
      = set catalog - {''DELETE'', ''COPY'', ''PUT'', ''PATCH'', ''UNCHECKOUT''}"
    unfolding dangerous_set .
  have sub: "set DefaultMethods \<subseteq> set catalog"
    using assms(1) by (rule getMethods_defaults)
  with dangerous_defaults
  have "{''DELETE'', ''COPY'', ''PUT'', ''PATCH'', ''UNCHECKOUT''} \<subseteq> set catalog"
    by (rule subset_trans)
  then have r: "set catalog - set (fst (safeModeFilter config logger catalog t'))
      = {''DELETE'', ''COPY'', ''PUT'', ''PATCH'', ''UNCHECKOUT''}"
    unfolding f by (rule removed_exactly)
  have k: "set DefaultMethods - {''DELETE'', ''COPY'', ''PUT'', ''PATCH'', ''UNCHECKOUT''}
      \<subseteq> set (fst (safeModeFilter config logger catalog t'))"
    unfolding f using sub by (rule kept_others)
  from mutating_defaults k
  have "{''POST'', ''MKCOL'', ''MOVE'', ''LOCK'', ''UNLOCK''}
      \<subseteq> set (fst (safeModeFilter config logger catalog t'))"
    by (rule subset_trans)
  with dangerous_set r k show ?thesis by (intro conjI)
qed

lemma example_safe_getMethods:
  "fst (getMethods example_env (example_config\<lparr>SafeOnly := True\<rparr>) example_logger no_trace)
     = Inr example_catalog"
  by code_simp

theorem safe_mode_removes_exactly_witness:
  "\<exists>t'. getMethods example_env (example_config\<lparr>SafeOnly := True\<rparr>) example_logger no_trace
       = (Inr example_catalog, t')
     \<and> SafeOnly (example_config\<lparr>SafeOnly := True\<rparr>)
     \<and> set example_catalog
          - set (fst (safeModeFilter (example_config\<lparr>SafeOnly := True\<rparr>) example_logger
                  example_catalog t'))
        = {''DELETE'', ''COPY'', ''PUT'', ''PATCH'', ''UNCHECKOUT''}
     \<and> ''POST'' \<in> set (fst (safeModeFilter (example_config\<lparr>SafeOnly := True\<rparr>) example_logger
                  example_catalog t'))"
proof -
  let ?c = "example_config\<lparr>SafeOnly := True\<rparr>"
  let ?t = "snd (getMethods example_env ?c example_logger no_trace)"
  have ev: "getMethods example_env ?c example_logger no_trace = (Inr example_catalog, ?t)"
    using example_safe_getMethods by (metis prod.collapse)
  have s: "SafeOnly ?c" by simp
  note w = safe_mode_removes_exactly [OF ev s]
  note r = w [THEN conjunct2, THEN conjunct1]
  note p = w [THEN conjunct2, THEN conjunct2, THEN conjunct2]
  have "''POST'' \<in> set (fst (safeModeFilter ?c example_logger example_catalog ?t))"
    using p by (rule subsetD) (simp only: insert_iff simp_thms)
  with ev s r show ?thesis by (intro exI [of _ ?t] conjI)
qed

section \<open>Properties of the client factory\<close>

lemma buildHTTPClient_ClientTimeout:
  assumes "buildHTTPClient e config = Inr client"
  shows "ClientTimeout client = (if 0 <s Timeout config then Timeout config else 10) * Second"
  using assms
  by (auto simp: buildHTTPClient_def Let_def split: if_splits option.splits)

lemma seconds_no_wrap:
  fixes n :: go_int
  assumes "0 \<le> sint n" and "sint n \<le> 9223372036"
  shows "sint (n * Second) = sint n * 1000000000"
proof -
  have s: "sint Second = 1000000000" by (simp add: Second_def)
  have lo: "- (2 ^ 63) \<le> sint n * 1000000000" using assms(1) by simp
  have "sint n * 1000000000 \<le> 9223372036 * 1000000000" using assms(2) by simp
  then have hi: "sint n * 1000000000 < 2 ^ 63" by simp
  have "sint (n * Second) = signed_take_bit 63 (sint n * sint Second)"
    by (simp add: sint_word_ariths)
  also have "\<dots> = sint n * 1000000000"
    unfolding s using lo hi by (rule signed_take_bit_int_eq_self)
  finally show ?thesis .
qed

text \<open>
  C8, amended: the timeout of the client is 10 seconds when the configured timeout is
  zero or negative, and the configured number of seconds when that is positive and at
  most 9223372036, the largest number of seconds whose nanoseconds fit
  \<^verbatim>\<open>time.Duration\<close>.
\<close>

theorem buildHTTPClient_timeout:
  assumes "buildHTTPClient e config = Inr client"
  shows "(sint (Timeout config) \<le> 0 \<longrightarrow> sint (ClientTimeout client) = 10 * 1000000000)
     \<and> (0 < sint (Timeout config) \<and> sint (Timeout config) \<le> 9223372036
          \<longrightarrow> sint (ClientTimeout client) = sint (Timeout config) * 1000000000)"
proof (intro conjI impI)
  assume "sint (Timeout config) \<le> 0"
  then have "\<not> 0 <s Timeout config" by (simp add: word_sless_alt)
  then have "ClientTimeout client = 10 * Second"
    using buildHTTPClient_ClientTimeout [OF assms] by simp
  moreover have "sint ((10::go_int) * Second) = sint (10::go_int) * 1000000000"
    by (rule seconds_no_wrap) simp_all
  ultimately show "sint (ClientTimeout client) = 10 * 1000000000" by simp
next
  assume a: "0 < sint (Timeout config) \<and> sint (Timeout config) \<le> 9223372036"
  then have "0 <s Timeout config" by (simp add: word_sless_alt)
  then have "ClientTimeout client = Timeout config * Second"
    using buildHTTPClient_ClientTimeout [OF assms] by simp
  then show "sint (ClientTimeout client) = sint (Timeout config) * 1000000000"
    using a by (simp add: seconds_no_wrap)
qed

lemma example_client0:
  "buildHTTPClient example_env (example_config\<lparr>Timeout := 0\<rparr>) =
     Inr \<lparr>ClientTimeout = 10000000000, InsecureSkipVerify = False, ClientProxy = None,
          CheckRedirect = True\<rparr>"
  by (simp add: buildHTTPClient_def example_config_def Second_def word_sless_alt)

lemma example_client30:
  "buildHTTPClient example_env (example_config\<lparr>Timeout := 30\<rparr>) =
     Inr \<lparr>ClientTimeout = 30000000000, InsecureSkipVerify = False, ClientProxy = None,
          CheckRedirect = True\<rparr>"
  by (simp add: buildHTTPClient_def example_config_def Second_def word_sless_alt)

theorem buildHTTPClient_timeout_witness:
  "sint (Timeout (example_config\<lparr>Timeout := 0\<rparr>)) \<le> 0
   \<and> sint (ClientTimeout \<lparr>ClientTimeout = 10000000000, InsecureSkipVerify = False,
              ClientProxy = None, CheckRedirect = True\<rparr>) = 10 * 1000000000
   \<and> 0 < sint (Timeout (example_config\<lparr>Timeout := 30\<rparr>))
   \<and> sint (Timeout (example_config\<lparr>Timeout := 30\<rparr>)) \<le> 9223372036
   \<and> sint (ClientTimeout \<lparr>ClientTimeout = 30000000000, InsecureSkipVerify = False,
              ClientProxy = None, CheckRedirect = True\<rparr>) = 30 * 1000000000"
proof -
  have z: "sint (Timeout (example_config\<lparr>Timeout := 0\<rparr>)) \<le> 0" by simp
  have p: "0 < sint (Timeout (example_config\<lparr>Timeout := 30\<rparr>))
      \<and> sint (Timeout (example_config\<lparr>Timeout := 30\<rparr>)) \<le> 9223372036" by simp
  have v: "sint (Timeout (example_config\<lparr>Timeout := 30\<rparr>)) = 30" by simp
  note a = buildHTTPClient_timeout [OF example_client0, THEN conjunct1, THEN mp, OF z]
  note b = buildHTTPClient_timeout [OF example_client30, THEN conjunct2, THEN mp, OF p]
  from z a p b [unfolded v] show ?thesis by (intro conjI) (elim conjE, assumption)+
qed

text \<open>
  C8 as stated fails for a larger timeout: with 9223372037 seconds configured the
  multiplication by \<^verbatim>\<open>time.Second\<close> wraps, and the client gets a negative
  duration instead of the configured value.
\<close>

theorem buildHTTPClient_timeout_counterexample:
  "buildHTTPClient example_env (example_config\<lparr>Timeout := 9223372037\<rparr>) =
     Inr \<lparr>ClientTimeout = 9223372037000000000, InsecureSkipVerify = False,
          ClientProxy = None, CheckRedirect = True\<rparr>
   \<and> sint (Timeout (example_config\<lparr>Timeout := 9223372037\<rparr>)) = 9223372037
   \<and> sint (9223372037000000000 :: Duration) = - 9223372036709551616
   \<and> sint (9223372037000000000 :: Duration) \<noteq> 9223372037 * 1000000000"
  by (simp add: buildHTTPClient_def example_config_def Second_def word_sless_alt)

section \<open>Properties of the discovery step\<close>

lemma warnings_log:
  "warnings (log l level format args t) =
     warnings t @ (if level = LevelWarning \<and> \<not> LoggerQuiet l then [(level, format, args)] else [])"
  by (cases level) (simp_all add: warnings_def log_def)

lemma warnings_Debug [simp]: "warnings (Debug l format args t) = warnings t"
  by (simp add: Debug_def warnings_log)

lemma warnings_Info [simp]: "warnings (Info l format args t) = warnings t"
  by (simp add: Info_def warnings_log)


lemma warnings_Do [simp]: "warnings (snd (Do e client req t)) = warnings t"
  by (simp add: Do_def warnings_def)

lemma fst_Do [simp]: "fst (Do e client req t) = client_Do e client req"
  by (simp add: Do_def)


lemma warnings_requests_update [simp]: "warnings (t\<lparr>requests := r\<rparr>) = warnings t"
  by (simp add: warnings_def)
















section \<open>Properties of the dispatch\<close>

lemma length_filter_update:
  "i < length xs \<Longrightarrow>
   length (filter P (xs[i := v])) + (if P (xs ! i) then 1 else 0)
     = length (filter P xs) + (if P v then 1 else 0)"
proof (induction xs arbitrary: i)
  case Nil
  then show ?case by simp
next
  case (Cons x xs)
  show ?case
  proof (cases i)
    case 0
    then show ?thesis by simp
  next
    case (Suc k)
    with Cons.prems have "k < length xs" by simp
    from Cons.IH [OF this] Suc show ?thesis by simp
  qed
qed

lemma zip_snoc:
  "length xs < length ys \<Longrightarrow> zip (xs @ [x]) ys = zip xs ys @ [(x, ys ! length xs)]"
proof (induction xs arbitrary: ys)
  case Nil
  then show ?case by (cases ys) simp_all
next
  case (Cons a xs)
  then show ?case by (cases ys) simp_all
qed

lemma zip_update_left:
  "zip (xs[i := v]) ys = (zip xs ys)[i := (v, ys ! i)]"
  by (simp add: update_zip)

lemma testMethod_stores:
  "stores (testMethod e client url m headers cookies logger s) =
     (if http_NewRequest e m url = None then stores s @ [m] else stores s)"
  by (simp add: testMethod_def store_def Let_def Do_def split: option.splits sum.splits)

lemma testMethod_dom:
  "dom (results (testMethod e client url m headers cookies logger s)) =
     (if http_NewRequest e m url = None then insert m (dom (results s)) else dom (results s))"
  by (simp add: testMethod_def store_def Let_def Do_def split: option.splits sum.splits)

lemma written_snoc:
  "length ps < length (jobMethods j) \<Longrightarrow> written e j (ps @ [Waiting]) m = written e j ps m"
  by (simp add: written_def zip_snoc passed_def)

lemma written_update:
  assumes "i < length ps" and "length ps \<le> length (jobMethods j)"
  shows "written e j (ps[i := v]) m
           + (if passed (ps ! i) \<and> jobMethods j ! i = m \<and> constructs e j m then 1 else 0)
         = written e j ps m
           + (if passed v \<and> jobMethods j ! i = m \<and> constructs e j m then 1 else 0)"
proof -
  let ?P = "\<lambda>(p, m'). passed p \<and> m' = m \<and> constructs e j m'"
  let ?zs = "zip ps (jobMethods j)"
  have i: "i < length ?zs" using assms by simp
  have z: "?zs ! i = (ps ! i, jobMethods j ! i)" using assms by simp
  have a: "?P (?zs ! i) = (passed (ps ! i) \<and> jobMethods j ! i = m \<and> constructs e j m)"
    unfolding z by auto
  have b: "?P (v, jobMethods j ! i) = (passed v \<and> jobMethods j ! i = m \<and> constructs e j m)"
    by auto
  from length_filter_update [OF i, of ?P "(v, jobMethods j ! i)"]
  show ?thesis unfolding written_def zip_update_left a b .
qed

lemma inv_start:
  assumes "start j t = Some s0"
  shows "dispatch_inv e j s0"
proof -
  from assms have n: "\<not> jobThreads j <s 0"
    and s0: "s0 = \<lparr>pcs = [], sem = 0, wg = 0,
                 sh = \<lparr>results = Map.empty, stores = [], effects = t\<rparr>, joined = False\<rparr>"
    by (auto simp: start_def split: if_splits)
  from n have "0 \<le> sint (jobThreads j)" by (simp add: word_sless_alt)
  then show ?thesis unfolding s0 by (simp add: dispatch_inv_def written_def)
qed

lemma inv_Spawn:
  assumes "dispatch_inv e j s" and "fire e j Spawn s = Some s'"
  shows "dispatch_inv e j s'"
proof -
  from assms(2) have l: "length (pcs s) < length (jobMethods j)"
    and s': "s' = s\<lparr>pcs := pcs s @ [Waiting], wg := wg s + 1\<rparr>"
    by (auto split: if_splits)
  have nj: "\<not> joined s" using assms(1) l by (auto simp: dispatch_inv_def)
  show ?thesis
    using assms(1) l nj unfolding s' dispatch_inv_def
    by (simp add: written_snoc holding_def active_def)
qed

lemma nth_not_Finished:
  "i < length ps \<Longrightarrow> ps ! i \<noteq> Finished \<Longrightarrow> \<not> (\<forall>p\<in>set ps. p = Finished)"
  by (metis nth_mem)

lemma inv_Acquire:
  assumes "dispatch_inv e j s" and "fire e j (Acquire i) s = Some s'"
  shows "dispatch_inv e j s'"
proof -
  from assms(2) have i: "i < length (pcs s)" and p: "pcs s ! i = Waiting"
    and c: "int (sem s) < sint (jobThreads j)"
    and s': "s' = s\<lparr>pcs := (pcs s)[i := Running], sem := sem s + 1\<rparr>"
    by (auto split: if_splits)
  from assms(1) have len: "length (pcs s) \<le> length (jobMethods j)"
    by (simp add: dispatch_inv_def)
  have nj: "\<not> joined s"
    using assms(1) nth_not_Finished [OF i] p by (auto simp: dispatch_inv_def)
  have h: "length (filter holding ((pcs s)[i := Running])) = length (filter holding (pcs s)) + 1"
    using length_filter_update [OF i, of holding Running] p by (simp add: holding_def)
  have a: "length (filter active ((pcs s)[i := Running])) = length (filter active (pcs s))"
    using length_filter_update [OF i, of active Running] p by (simp add: active_def)
  have w: "written e j ((pcs s)[i := Running]) m = written e j (pcs s) m" for m
    using written_update [OF i len, of e Running m] p by (simp add: passed_def)
  show ?thesis
    using assms(1) c nj unfolding s' dispatch_inv_def
    by (simp add: h a w)
qed

lemma inv_Run:
  assumes "dispatch_inv e j s" and "fire e j (Run i) s = Some s'"
  shows "dispatch_inv e j s'"
proof -
  let ?m = "jobMethods j ! i"
  let ?sh = "testMethod e (jobClient j) (jobURL j) ?m (jobHeaders j) (jobCookies j)
               (jobLogger j) (sh s)"
  from assms(2) have i: "i < length (pcs s)" and p: "pcs s ! i = Running"
    and s': "s' = s\<lparr>pcs := (pcs s)[i := Returned], sh := ?sh\<rparr>"
    by (auto split: if_splits)
  from assms(1) have len: "length (pcs s) \<le> length (jobMethods j)"
    by (simp add: dispatch_inv_def)
  have nj: "\<not> joined s"
    using assms(1) nth_not_Finished [OF i] p by (auto simp: dispatch_inv_def)
  have h: "length (filter holding ((pcs s)[i := Returned])) = length (filter holding (pcs s))"
    using length_filter_update [OF i, of holding Returned] p by (simp add: holding_def)
  have a: "length (filter active ((pcs s)[i := Returned])) = length (filter active (pcs s))"
    using length_filter_update [OF i, of active Returned] p by (simp add: active_def)
  have w: "written e j ((pcs s)[i := Returned]) m =
      written e j (pcs s) m + (if ?m = m \<and> constructs e j m then 1 else 0)" for m
    using written_update [OF i len, of e Returned m] p by (simp add: passed_def)
  have st: "count_list (stores ?sh) m = written e j ((pcs s)[i := Returned]) m" for m
  proof -
    have "count_list (stores (sh s)) m = written e j (pcs s) m"
      using assms(1) by (simp add: dispatch_inv_def)
    then show ?thesis
      unfolding w testMethod_stores by (auto simp: constructs_def)
  qed
  have d: "dom (results ?sh) = set (stores ?sh)"
    using assms(1) unfolding testMethod_stores testMethod_dom
    by (simp add: dispatch_inv_def)
  show ?thesis
    using assms(1) nj st d unfolding s' dispatch_inv_def
    by (simp add: h a)
qed

lemma inv_Release:
  assumes "dispatch_inv e j s" and "fire e j (Release i) s = Some s'"
  shows "dispatch_inv e j s'"
proof -
  from assms(2) have i: "i < length (pcs s)" and p: "pcs s ! i = Returned"
    and c: "0 < sem s"
    and s': "s' = s\<lparr>pcs := (pcs s)[i := Released], sem := sem s - 1\<rparr>"
    by (auto split: if_splits)
  from assms(1) have len: "length (pcs s) \<le> length (jobMethods j)"
    by (simp add: dispatch_inv_def)
  have nj: "\<not> joined s"
    using assms(1) nth_not_Finished [OF i] p by (auto simp: dispatch_inv_def)
  have h: "length (filter holding ((pcs s)[i := Released])) + 1 = length (filter holding (pcs s))"
    using length_filter_update [OF i, of holding Released] p by (simp add: holding_def)
  have a: "length (filter active ((pcs s)[i := Released])) = length (filter active (pcs s))"
    using length_filter_update [OF i, of active Released] p by (simp add: active_def)
  have w: "written e j ((pcs s)[i := Released]) m = written e j (pcs s) m" for m
    using written_update [OF i len, of e Released m] p by (simp add: passed_def)
  show ?thesis
    using assms(1) c nj h unfolding s' dispatch_inv_def
    by (simp add: a w)
qed

lemma inv_Done:
  assumes "dispatch_inv e j s" and "fire e j (Done i) s = Some s'"
  shows "dispatch_inv e j s'"
proof -
  from assms(2) have i: "i < length (pcs s)" and p: "pcs s ! i = Released"
    and c: "0 < wg s"
    and s': "s' = s\<lparr>pcs := (pcs s)[i := Finished], wg := wg s - 1\<rparr>"
    by (auto split: if_splits)
  from assms(1) have len: "length (pcs s) \<le> length (jobMethods j)"
    by (simp add: dispatch_inv_def)
  have nj: "\<not> joined s"
    using assms(1) nth_not_Finished [OF i] p by (auto simp: dispatch_inv_def)
  have h: "length (filter holding ((pcs s)[i := Finished])) = length (filter holding (pcs s))"
    using length_filter_update [OF i, of holding Finished] p by (simp add: holding_def)
  have a: "length (filter active ((pcs s)[i := Finished])) + 1 = length (filter active (pcs s))"
    using length_filter_update [OF i, of active Finished] p by (simp add: active_def)
  have w: "written e j ((pcs s)[i := Finished]) m = written e j (pcs s) m" for m
    using written_update [OF i len, of e Finished m] p by (simp add: passed_def)
  show ?thesis
    using assms(1) c nj a unfolding s' dispatch_inv_def
    by (simp add: h w)
qed

lemma no_active_all_Finished:
  "length (filter active ps) = 0 \<Longrightarrow> \<forall>p\<in>set ps. p = Finished"
  by (simp add: filter_empty_conv active_def)

lemma inv_Wait:
  assumes "dispatch_inv e j s" and "fire e j Wait s = Some s'"
  shows "dispatch_inv e j s'"
proof -
  from assms(2) have l: "length (pcs s) = length (jobMethods j)" and z: "wg s = 0"
    and s': "s' = s\<lparr>joined := True\<rparr>"
    by (auto split: if_splits)
  from assms(1) z have "length (filter active (pcs s)) = 0"
    by (simp add: dispatch_inv_def)
  then have "\<forall>p\<in>set (pcs s). p = Finished" by (rule no_active_all_Finished)
  then show ?thesis
    using assms(1) l unfolding s' dispatch_inv_def by simp
qed

lemma inv_fire:
  assumes "dispatch_inv e j s" and "fire e j a s = Some s'"
  shows "dispatch_inv e j s'"
proof (cases a)
  case Spawn
  with assms show ?thesis by (simp only: inv_Spawn)
next
  case (Acquire i)
  with assms show ?thesis by (simp only: inv_Acquire)
next
  case (Run i)
  with assms show ?thesis by (simp only: inv_Run)
next
  case (Release i)
  with assms show ?thesis by (simp only: inv_Release)
next
  case (Done i)
  with assms show ?thesis by (simp only: inv_Done)
next
  case Wait
  with assms show ?thesis by (simp only: inv_Wait)
qed

lemma inv_exec:
  "dispatch_inv e j s \<Longrightarrow> exec e j sched s = Some s' \<Longrightarrow> dispatch_inv e j s'"
proof (induction sched arbitrary: s)
  case Nil
  then show ?case by simp
next
  case (Cons a sched)
  from Cons.prems(2) obtain s1 where f: "fire e j a s = Some s1"
    and x: "exec e j sched s1 = Some s'"
    by (auto split: option.splits)
  from Cons.prems(1) f have "dispatch_inv e j s1" by (rule inv_fire)
  then show ?case using x by (rule Cons.IH)
qed

lemma inv_reachable:
  assumes "reachable e j t s"
  shows "dispatch_inv e j s"
proof -
  from assms obtain s0 sched where s0: "start j t = Some s0"
    and x: "exec e j sched s0 = Some s"
    unfolding reachable_def by (elim exE conjE)
  from s0 have "dispatch_inv e j s0" by (rule inv_start)
  then show ?thesis using x by (rule inv_exec)
qed

lemma written_joined:
  "length ps = length ms \<Longrightarrow> \<forall>p\<in>set ps. p = Finished \<Longrightarrow>
   length (filter (\<lambda>(p, m'). passed p \<and> m' = m \<and> c m') (zip ps ms)) = count_list (filter c ms) m"
  by (induction ps ms rule: list_induct2) (simp_all add: passed_def)

lemma distinct_count_list:
  "distinct xs \<Longrightarrow> x \<in> set xs \<Longrightarrow> count_list xs x = 1"
  by (induction xs) auto

lemma set_count_list: "set xs = {x. 0 < count_list xs x}"
  by (rule set_eqI) (simp add: zero_less_iff_neq_zero count_list_0_iff)

lemma length_filter_mono:
  "(\<And>x. P x \<Longrightarrow> Q x) \<Longrightarrow> length (filter P xs) \<le> length (filter Q xs)"
  by (induction xs) auto

text \<open>
  C1: once every worker has joined, the aggregate holds exactly the methods of the
  catalog whose request could be built, and each of them has been written once per
  occurrence in the catalog. For a catalog of K different methods that all build a
  request, the aggregate has K entries, each written exactly once.
\<close>

theorem dispatch_aggregate:
  assumes "reachable e j t s" and "joined s"
  shows "dom (results (sh s)) = {m \<in> set (jobMethods j). constructs e j m}
     \<and> (\<forall>m. count_list (stores (sh s)) m = count_list (filter (constructs e j) (jobMethods j)) m)
     \<and> (distinct (jobMethods j) \<and> (\<forall>m\<in>set (jobMethods j). constructs e j m)
          \<longrightarrow> card (dom (results (sh s))) = length (jobMethods j)
              \<and> (\<forall>m\<in>set (jobMethods j). count_list (stores (sh s)) m = 1))"
proof -
  from assms(1) have i: "dispatch_inv e j s" by (rule inv_reachable)
  with assms(2) have l: "length (pcs s) = length (jobMethods j)"
    and f: "\<forall>p\<in>set (pcs s). p = Finished"
    by (simp_all add: dispatch_inv_def)
  have c: "count_list (stores (sh s)) m = count_list (filter (constructs e j) (jobMethods j)) m"
    for m
  proof -
    have "count_list (stores (sh s)) m = written e j (pcs s) m"
      using i by (simp add: dispatch_inv_def)
    also have "\<dots> = count_list (filter (constructs e j) (jobMethods j)) m"
      unfolding written_def using l f by (rule written_joined)
    finally show ?thesis .
  qed
  have "dom (results (sh s)) = set (stores (sh s))"
    using i by (simp add: dispatch_inv_def)
  also have "\<dots> = set (filter (constructs e j) (jobMethods j))"
    unfolding set_count_list [of "stores (sh s)"] set_count_list [of "filter _ _"] c ..
  finally have d: "dom (results (sh s)) = set (filter (constructs e j) (jobMethods j))" .
  have k: "card (dom (results (sh s))) = length (jobMethods j)
      \<and> (\<forall>m\<in>set (jobMethods j). count_list (stores (sh s)) m = 1)"
    if di: "distinct (jobMethods j)" and al: "\<forall>m\<in>set (jobMethods j). constructs e j m"
  proof -
    from al have fl: "filter (constructs e j) (jobMethods j) = jobMethods j" by simp
    have "card (dom (results (sh s))) = length (jobMethods j)"
      unfolding d fl using di by (rule distinct_card)
    moreover have "\<forall>m\<in>set (jobMethods j). count_list (stores (sh s)) m = 1"
      unfolding c fl using di by (simp add: distinct_count_list)
    ultimately show ?thesis ..
  qed
  from d have "dom (results (sh s)) = {m \<in> set (jobMethods j). constructs e j m}" by simp
  with c k show ?thesis by simp
qed

text \<open>
  C2: at every point of a dispatch the number of workers inside \<open>testMethod\<close> is at
  most the configured limit. The channel holds one element for every worker between its
  send and its receive; a worker inside \<open>testMethod\<close> returns from it on each of its
  paths and then gets its receive through, which gives the slot back; when the wait
  group has been joined the channel is empty.
\<close>

theorem dispatch_bound:
  assumes "reachable e j t s"
  shows "int (inflight s) \<le> sint (jobThreads j)
     \<and> sem s = length (filter holding (pcs s))
     \<and> (\<forall>i<length (pcs s). pcs s ! i = Running \<longrightarrow>
          (\<exists>s'. exec e j [Run i, Release i] s = Some s'
                \<and> pcs s' ! i = Released \<and> sem s' + 1 = sem s))
     \<and> (joined s \<longrightarrow> sem s = 0)"
proof -
  from assms have i: "dispatch_inv e j s" by (rule inv_reachable)
  then have h: "sem s = length (filter holding (pcs s))"
    and n: "int (sem s) \<le> sint (jobThreads j)"
    by (simp_all add: dispatch_inv_def)
  have "inflight s \<le> length (filter holding (pcs s))"
    unfolding inflight_def by (rule length_filter_mono) (simp add: holding_def)
  with h n have b: "int (inflight s) \<le> sint (jobThreads j)" by simp
  have r: "\<exists>s'. exec e j [Run k, Release k] s = Some s' \<and> pcs s' ! k = Released
      \<and> sem s' + 1 = sem s"
    if k: "k < length (pcs s)" and p: "pcs s ! k = Running" for k
  proof -
    have "holding (pcs s ! k)" using p by (simp add: holding_def)
    then have "pcs s ! k \<in> set (filter holding (pcs s))" using k by simp
    then have "filter holding (pcs s) \<noteq> []" by (metis empty_iff empty_set)
    then have "0 < sem s" unfolding h by simp
    then show ?thesis using k p by simp
  qed
  have z: "sem s = 0" if "joined s"
  proof -
    from i that have "\<forall>p\<in>set (pcs s). p = Finished" by (simp add: dispatch_inv_def)
    then have "filter holding (pcs s) = []"
      by (auto simp: filter_empty_conv holding_def)
    then show ?thesis unfolding h by simp
  qed
  from b h r z show ?thesis by blast
qed

lemma example_start:
  "start example_job no_trace =
     Some \<lparr>pcs = [], sem = 0, wg = 0,
           sh = \<lparr>results = Map.empty, stores = [], effects = no_trace\<rparr>, joined = False\<rparr>"
  by (simp add: start_def example_job_def word_sless_alt)

lemma example_run:
  "\<exists>s. exec example_env example_job example_schedule
         \<lparr>pcs = [], sem = 0, wg = 0,
          sh = \<lparr>results = Map.empty, stores = [], effects = no_trace\<rparr>, joined = False\<rparr>
        = Some s \<and> joined s"
  by (simp add: example_schedule_def example_job_def)

lemma example_reachable_joined:
  "\<exists>s. reachable example_env example_job no_trace s \<and> joined s"
  using example_start example_run unfolding reachable_def by blast

lemma example_job_constructs:
  "distinct (jobMethods example_job)
     \<and> (\<forall>m\<in>set (jobMethods example_job). constructs example_env example_job m)"
  by (simp add: example_job_def constructs_def example_env_def)

theorem dispatch_aggregate_witness:
  "\<exists>s. reachable example_env example_job no_trace s \<and> joined s
       \<and> dom (results (sh s)) = {''GET'', ''PUT''}
       \<and> card (dom (results (sh s))) = 2
       \<and> count_list (stores (sh s)) ''GET'' = 1 \<and> count_list (stores (sh s)) ''PUT'' = 1"
proof -
  from example_reachable_joined obtain s where
    r: "reachable example_env example_job no_trace s" and j: "joined s"
    by (elim exE conjE)
  note a = dispatch_aggregate [OF r j]
  have m: "jobMethods example_job = [''GET'', ''PUT'']" by (simp add: example_job_def)
  have c: "{m \<in> set (jobMethods example_job). constructs example_env example_job m}
      = {''GET'', ''PUT''}"
    using example_job_constructs unfolding m by auto
  from a have d: "dom (results (sh s)) = {''GET'', ''PUT''}" unfolding c by (rule conjunct1)
  from a [THEN conjunct2, THEN conjunct2, THEN mp, OF example_job_constructs]
  have k: "card (dom (results (sh s))) = 2"
    and o: "\<forall>m\<in>set (jobMethods example_job). count_list (stores (sh s)) m = 1"
    unfolding m by simp_all
  from o have "count_list (stores (sh s)) ''GET'' = 1" "count_list (stores (sh s)) ''PUT'' = 1"
    unfolding m by simp_all
  with r j d k show ?thesis by (intro exI [of _ s] conjI)
qed

lemma example_mid:
  "\<exists>s. exec example_env example_job [Spawn, Spawn, Acquire 0]
         \<lparr>pcs = [], sem = 0, wg = 0,
          sh = \<lparr>results = Map.empty, stores = [], effects = no_trace\<rparr>, joined = False\<rparr>
        = Some s \<and> 0 < length (pcs s) \<and> pcs s ! 0 = Running"
  by (simp add: example_job_def)

theorem dispatch_bound_witness:
  "(\<exists>s. reachable example_env example_job no_trace s
        \<and> 0 < length (pcs s) \<and> pcs s ! 0 = Running
        \<and> int (inflight s) \<le> sint (jobThreads example_job)
        \<and> (\<exists>s'. exec example_env example_job [Run 0, Release 0] s = Some s'
                \<and> pcs s' ! 0 = Released \<and> sem s' + 1 = sem s))
   \<and> (\<exists>s. reachable example_env example_job no_trace s \<and> joined s \<and> sem s = 0)"
proof
  from example_mid obtain s where
    x: "exec example_env example_job [Spawn, Spawn, Acquire 0]
         \<lparr>pcs = [], sem = 0, wg = 0,
          sh = \<lparr>results = Map.empty, stores = [], effects = no_trace\<rparr>, joined = False\<rparr>
        = Some s"
    and l: "0 < length (pcs s)" and p: "pcs s ! 0 = Running"
    by (elim exE conjE)
  from example_start x have r: "reachable example_env example_job no_trace s"
    unfolding reachable_def by blast
  note b = dispatch_bound [OF r]
  from b have i: "int (inflight s) \<le> sint (jobThreads example_job)" by (rule conjunct1)
  from b [THEN conjunct2, THEN conjunct2, THEN conjunct1, THEN spec, THEN mp, OF l, THEN mp, OF p]
  have "\<exists>s'. exec example_env example_job [Run 0, Release 0] s = Some s'
                \<and> pcs s' ! 0 = Released \<and> sem s' + 1 = sem s" .
  with r l p i show "\<exists>s. reachable example_env example_job no_trace s
        \<and> 0 < length (pcs s) \<and> pcs s ! 0 = Running
        \<and> int (inflight s) \<le> sint (jobThreads example_job)
        \<and> (\<exists>s'. exec example_env example_job [Run 0, Release 0] s = Some s'
                \<and> pcs s' ! 0 = Released \<and> sem s' + 1 = sem s)"
    by blast
next
  from example_reachable_joined obtain s where
    r: "reachable example_env example_job no_trace s" and j: "joined s"
    by (elim exE conjE)
  from dispatch_bound [OF r, THEN conjunct2, THEN conjunct2, THEN conjunct2, THEN mp, OF j]
  have "sem s = 0" .
  with r j show "\<exists>s. reachable example_env example_job no_trace s \<and> joined s \<and> sem s = 0"
    by (intro exI [of _ s] conjI)
qed

lemma testMethod_failure:
  assumes "http_NewRequest e method url = None"
    and "client_Do e client
           \<lparr>reqMethod = method, reqURL = url, reqHeader = headers, reqCookies = cookies\<rparr>
         = Inl err"
  shows "results (testMethod e client url method headers cookies logger s)
           = (results s)(method \<mapsto> \<lparr>StatusCode = 0, Length = 0, Reason = err\<rparr>)"
  using assms
  by (simp add: testMethod_def store_def Let_def Do_def Debug_def log_def)

lemma testMethod_response:
  assumes "http_NewRequest e method url = None"
    and "client_Do e client
           \<lparr>reqMethod = method, reqURL = url, reqHeader = headers, reqCookies = cookies\<rparr>
         = Inr resp"
  shows "results (testMethod e client url method headers cookies logger s)
           = (results s)(method \<mapsto>
                \<lparr>StatusCode = respStatusCode resp,
                 Length = min (respBody resp) (1024 * 1024),
                 Reason = respStatus resp\<rparr>)"
  using assms
  by (simp add: testMethod_def store_def Let_def Do_def)

lemma testMethod_requests:
  assumes "http_NewRequest e method url = None"
  shows "requests (effects (testMethod e client url method headers cookies logger s))
           = requests (effects s)
               @ [\<lparr>reqMethod = method, reqURL = url, reqHeader = headers, reqCookies = cookies\<rparr>]"
  using assms
  by (simp add: testMethod_def store_def Let_def Do_def Debug_def log_def
      split: sum.splits option.splits)

lemma testMethod_prints_debug:
  "filter (\<lambda>l. fst l \<noteq> LevelDebug)
       (printed (effects (testMethod e client url method headers cookies logger s)))
     = filter (\<lambda>l. fst l \<noteq> LevelDebug) (printed (effects s))"
  by (simp add: testMethod_def store_def Let_def Do_def Debug_def log_def
      split: sum.splits option.splits)

lemma worker_completes:
  assumes "dispatch_inv e j d" and "i < length (pcs d)" and "pcs d ! i = Running"
  shows "\<exists>d'. exec e j [Run i, Release i, Done i] d = Some d' \<and> pcs d' ! i = Finished
     \<and> sh d' = testMethod e (jobClient j) (jobURL j) (jobMethods j ! i) (jobHeaders j)
                  (jobCookies j) (jobLogger j) (sh d)"
proof -
  have "holding (pcs d ! i)" "active (pcs d ! i)"
    using assms(3) by (simp_all add: holding_def active_def)
  then have "pcs d ! i \<in> set (filter holding (pcs d))" "pcs d ! i \<in> set (filter active (pcs d))"
    using assms(2) by simp_all
  then have "filter holding (pcs d) \<noteq> []" "filter active (pcs d) \<noteq> []"
    by (metis empty_iff empty_set)+
  then have "0 < sem d" "0 < wg d"
    using assms(1) by (simp_all add: dispatch_inv_def)
  then show ?thesis using assms(2,3) by simp
qed

text \<open>
  C7, amended: when the request of a method is built, \<open>testMethod\<close> sends it once and
  assigns one result to the method. When \<^verbatim>\<open>client.Do\<close> returns an error, that
  result has status 0, length 0 and the error text. When \<^verbatim>\<open>client.Do\<close> returns a
  response, the result has the status code and the status text of the response and the
  number of bytes read from the body, at most 1 MiB, also when the read of the body
  ends with an error of the transport. \<open>testMethod\<close> prints nothing but debug lines.
  In either case the worker then returns, gives back its slot and signals the wait group
  like every other worker: \<open>testMethod\<close> has no error to return.
\<close>

theorem testMethod_transport_failure:
  assumes "http_NewRequest e method url = None"
  shows "(\<forall>err. client_Do e client
                 \<lparr>reqMethod = method, reqURL = url, reqHeader = headers, reqCookies = cookies\<rparr>
               = Inl err
            \<longrightarrow> results (testMethod e client url method headers cookies logger s)
                  = (results s)(method \<mapsto> \<lparr>StatusCode = 0, Length = 0, Reason = err\<rparr>))
     \<and> (\<forall>resp. client_Do e client
                 \<lparr>reqMethod = method, reqURL = url, reqHeader = headers, reqCookies = cookies\<rparr>
               = Inr resp
            \<longrightarrow> results (testMethod e client url method headers cookies logger s)
                  = (results s)(method \<mapsto>
                       \<lparr>StatusCode = respStatusCode resp,
                        Length = min (respBody resp) (1024 * 1024),
                        Reason = respStatus resp\<rparr>))
     \<and> stores (testMethod e client url method headers cookies logger s) = stores s @ [method]
     \<and> requests (effects (testMethod e client url method headers cookies logger s))
           = requests (effects s)
               @ [\<lparr>reqMethod = method, reqURL = url, reqHeader = headers, reqCookies = cookies\<rparr>]
     \<and> filter (\<lambda>l. fst l \<noteq> LevelDebug)
           (printed (effects (testMethod e client url method headers cookies logger s)))
         = filter (\<lambda>l. fst l \<noteq> LevelDebug) (printed (effects s))
     \<and> (\<forall>j t d i. reachable e j t d \<and> i < length (pcs d) \<and> pcs d ! i = Running
            \<and> jobClient j = client \<and> jobURL j = url \<and> jobMethods j ! i = method
            \<and> jobHeaders j = headers \<and> jobCookies j = cookies
          \<longrightarrow> (\<exists>d'. exec e j [Run i, Release i, Done i] d = Some d'
                 \<and> pcs d' ! i = Finished
                 \<and> sh d' = testMethod e client url method headers cookies (jobLogger j)
                              (sh d)))"
proof (intro conjI allI impI)
  fix err
  assume "client_Do e client
            \<lparr>reqMethod = method, reqURL = url, reqHeader = headers, reqCookies = cookies\<rparr>
          = Inl err"
  with assms show "results (testMethod e client url method headers cookies logger s)
           = (results s)(method \<mapsto> \<lparr>StatusCode = 0, Length = 0, Reason = err\<rparr>)"
    by (rule testMethod_failure)
next
  fix resp
  assume "client_Do e client
            \<lparr>reqMethod = method, reqURL = url, reqHeader = headers, reqCookies = cookies\<rparr>
          = Inr resp"
  with assms show "results (testMethod e client url method headers cookies logger s)
           = (results s)(method \<mapsto>
                \<lparr>StatusCode = respStatusCode resp,
                 Length = min (respBody resp) (1024 * 1024),
                 Reason = respStatus resp\<rparr>)"
    by (rule testMethod_response)
next
  show "stores (testMethod e client url method headers cookies logger s) = stores s @ [method]"
    using assms by (simp add: testMethod_stores)
  show "requests (effects (testMethod e client url method headers cookies logger s))
           = requests (effects s)
               @ [\<lparr>reqMethod = method, reqURL = url, reqHeader = headers, reqCookies = cookies\<rparr>]"
    using assms by (rule testMethod_requests)
  show "filter (\<lambda>l. fst l \<noteq> LevelDebug)
           (printed (effects (testMethod e client url method headers cookies logger s)))
         = filter (\<lambda>l. fst l \<noteq> LevelDebug) (printed (effects s))"
    by (rule testMethod_prints_debug)
next
  fix j t d i
  assume a: "reachable e j t d \<and> i < length (pcs d) \<and> pcs d ! i = Running
            \<and> jobClient j = client \<and> jobURL j = url \<and> jobMethods j ! i = method
            \<and> jobHeaders j = headers \<and> jobCookies j = cookies"
  then have "dispatch_inv e j d" by (intro inv_reachable [of e j t d]) simp
  from worker_completes [OF this, of i] a
  show "\<exists>d'. exec e j [Run i, Release i, Done i] d = Some d'
                 \<and> pcs d' ! i = Finished
                 \<and> sh d' = testMethod e client url method headers cookies (jobLogger j)
                              (sh d)"
    by auto
qed

lemma example_down_mid:
  "\<exists>s. exec example_env_down example_job [Spawn, Spawn, Acquire 0]
         \<lparr>pcs = [], sem = 0, wg = 0,
          sh = \<lparr>results = Map.empty, stores = [], effects = no_trace\<rparr>, joined = False\<rparr>
        = Some s \<and> 0 < length (pcs s) \<and> pcs s ! 0 = Running
        \<and> sh s = \<lparr>results = Map.empty, stores = [], effects = no_trace\<rparr>"
  by (simp add: example_job_def)

theorem testMethod_transport_failure_witness:
  "http_NewRequest example_env_down ''GET'' ''http://t'' = None
   \<and> client_Do example_env_down (jobClient example_job)
        \<lparr>reqMethod = ''GET'', reqURL = ''http://t'', reqHeader = Map.empty,
         reqCookies = Map.empty\<rparr> = Inl ''connection refused''
   \<and> results (testMethod example_env_down (jobClient example_job) ''http://t'' ''GET''
        Map.empty Map.empty example_logger
        \<lparr>results = Map.empty, stores = [], effects = no_trace\<rparr>) ''GET''
      = Some \<lparr>StatusCode = 0, Length = 0, Reason = ''connection refused''\<rparr>
   \<and> stores (testMethod example_env_down (jobClient example_job) ''http://t'' ''GET''
        Map.empty Map.empty example_logger
        \<lparr>results = Map.empty, stores = [], effects = no_trace\<rparr>) = [''GET'']
   \<and> http_NewRequest example_env_stalled ''GET'' ''http://t'' = None
   \<and> client_Do example_env_stalled (jobClient example_job)
        \<lparr>reqMethod = ''GET'', reqURL = ''http://t'', reqHeader = Map.empty,
         reqCookies = Map.empty\<rparr>
      = Inr \<lparr>respStatusCode = 200, respStatus = ''200 OK'', respAllow = [], respBody = 10,
             respBodyErr = Some ''context deadline exceeded (Client.Timeout or context cancellation while reading body)''\<rparr>
   \<and> results (testMethod example_env_stalled (jobClient example_job) ''http://t'' ''GET''
        Map.empty Map.empty example_logger
        \<lparr>results = Map.empty, stores = [], effects = no_trace\<rparr>) ''GET''
      = Some \<lparr>StatusCode = 200, Length = 10, Reason = ''200 OK''\<rparr>
   \<and> (\<exists>d d'. reachable example_env_down example_job no_trace d
         \<and> 0 < length (pcs d) \<and> pcs d ! 0 = Running
         \<and> exec example_env_down example_job [Run 0, Release 0, Done 0] d = Some d'
         \<and> pcs d' ! 0 = Finished
         \<and> results (sh d') ''GET''
             = Some \<lparr>StatusCode = 0, Length = 0, Reason = ''connection refused''\<rparr>)"
proof -
  let ?req = "\<lparr>reqMethod = ''GET'', reqURL = ''http://t'', reqHeader = Map.empty,
         reqCookies = Map.empty\<rparr>"
  let ?s = "\<lparr>results = Map.empty, stores = [], effects = no_trace\<rparr>"
  let ?resp = "\<lparr>respStatusCode = 200, respStatus = ''200 OK'', respAllow = [], respBody = 10,
             respBodyErr = Some ''context deadline exceeded (Client.Timeout or context cancellation while reading body)''\<rparr>"
  have n: "http_NewRequest example_env_down ''GET'' ''http://t'' = None"
    by (simp add: example_env_down_def)
  have f: "client_Do example_env_down (jobClient example_job) ?req = Inl ''connection refused''"
    by (simp add: example_env_down_def)
  have n2: "http_NewRequest example_env_stalled ''GET'' ''http://t'' = None"
    by (simp add: example_env_stalled_def)
  have f2: "client_Do example_env_stalled (jobClient example_job) ?req = Inr ?resp"
    by (simp add: example_env_stalled_def)
  note w = testMethod_transport_failure
    [OF n, of "jobClient example_job" Map.empty Map.empty example_logger ?s]
  note w2 = testMethod_transport_failure
    [OF n2, of "jobClient example_job" Map.empty Map.empty example_logger ?s]
  from w [THEN conjunct1, THEN spec, THEN mp, OF f]
  have r: "results (testMethod example_env_down (jobClient example_job) ''http://t''
        ''GET'' Map.empty Map.empty example_logger ?s) ''GET''
      = Some \<lparr>StatusCode = 0, Length = 0, Reason = ''connection refused''\<rparr>"
    by simp
  from w have st: "stores (testMethod example_env_down (jobClient example_job) ''http://t''
        ''GET'' Map.empty Map.empty example_logger ?s) = [''GET'']"
    by simp
  from w2 [THEN conjunct2, THEN conjunct1, THEN spec, THEN mp, OF f2]
  have r2: "results (testMethod example_env_stalled (jobClient example_job) ''http://t''
        ''GET'' Map.empty Map.empty example_logger ?s) ''GET''
      = Some \<lparr>StatusCode = 200, Length = 10, Reason = ''200 OK''\<rparr>"
    by simp
  from example_down_mid obtain d where
    x: "exec example_env_down example_job [Spawn, Spawn, Acquire 0]
         \<lparr>pcs = [], sem = 0, wg = 0, sh = ?s, joined = False\<rparr> = Some d"
    and l: "0 < length (pcs d)" and p: "pcs d ! 0 = Running" and shd: "sh d = ?s"
    by (elim exE conjE)
  from example_start x have re: "reachable example_env_down example_job no_trace d"
    unfolding reachable_def by blast
  have j: "jobClient example_job = jobClient example_job \<and> jobURL example_job = ''http://t''
      \<and> jobMethods example_job ! 0 = ''GET'' \<and> jobHeaders example_job = Map.empty
      \<and> jobCookies example_job = Map.empty"
    by (simp add: example_job_def)
  have lg: "jobLogger example_job = example_logger"
    by (simp add: example_job_def)
  from w [THEN conjunct2, THEN conjunct2, THEN conjunct2, THEN conjunct2, THEN conjunct2,
      THEN spec, THEN spec, THEN spec, THEN spec, THEN mp,
      OF conjI [OF re conjI [OF l conjI [OF p j]]]]
  obtain d' where e1: "exec example_env_down example_job [Run 0, Release 0, Done 0] d = Some d'"
    and e2: "pcs d' ! 0 = Finished"
    and e3: "sh d' = testMethod example_env_down (jobClient example_job) ''http://t'' ''GET''
                Map.empty Map.empty (jobLogger example_job) (sh d)"
    by (elim exE conjE)
  from e3 r have e4: "results (sh d') ''GET''
             = Some \<lparr>StatusCode = 0, Length = 0, Reason = ''connection refused''\<rparr>"
    unfolding lg shd by simp
  from re l p e1 e2 e4 have ex: "\<exists>d d'. reachable example_env_down example_job no_trace d
         \<and> 0 < length (pcs d) \<and> pcs d ! 0 = Running
         \<and> exec example_env_down example_job [Run 0, Release 0, Done 0] d = Some d'
         \<and> pcs d' ! 0 = Finished
         \<and> results (sh d') ''GET''
             = Some \<lparr>StatusCode = 0, Length = 0, Reason = ''connection refused''\<rparr>"
    by blast
  from n f r st n2 f2 r2 ex show ?thesis by (intro conjI)
qed

text \<open>
  C7 as stated fails for a transport that fails while the body is read: the server below
  sends the status line and ten bytes of the body and then stalls, the timeout of the
  client ends \<^verbatim>\<open>io.ReadAll\<close> with an error, and \<open>testMethod\<close> records status
  200, length 10 and the status text of the response, not status 0, length 0 and the
  error text.
\<close>

theorem testMethod_transport_failure_counterexample:
  "http_NewRequest example_env_stalled ''GET'' ''http://t'' = None
   \<and> client_Do example_env_stalled (jobClient example_job)
        \<lparr>reqMethod = ''GET'', reqURL = ''http://t'', reqHeader = Map.empty,
         reqCookies = Map.empty\<rparr>
      = Inr \<lparr>respStatusCode = 200, respStatus = ''200 OK'', respAllow = [], respBody = 10,
             respBodyErr = Some ''context deadline exceeded (Client.Timeout or context cancellation while reading body)''\<rparr>
   \<and> results (testMethod example_env_stalled (jobClient example_job) ''http://t'' ''GET''
        Map.empty Map.empty example_logger
        \<lparr>results = Map.empty, stores = [], effects = no_trace\<rparr>) ''GET''
      = Some \<lparr>StatusCode = 200, Length = 10, Reason = ''200 OK''\<rparr>
   \<and> results (testMethod example_env_stalled (jobClient example_job) ''http://t'' ''GET''
        Map.empty Map.empty example_logger
        \<lparr>results = Map.empty, stores = [], effects = no_trace\<rparr>) ''GET''
      \<noteq> Some \<lparr>StatusCode = 0, Length = 0,
               Reason = ''context deadline exceeded (Client.Timeout or context cancellation while reading body)''\<rparr>"
  by (simp add: example_env_stalled_def testMethod_def store_def Let_def Do_def)

lemma rank_update:
  "i < length ps \<Longrightarrow>
   sum_list (map rank (ps[i := v])) + rank (ps ! i) = sum_list (map rank ps) + rank v"
proof (induction ps arbitrary: i)
  case Nil
  then show ?case by simp
next
  case (Cons p ps)
  show ?case
  proof (cases i)
    case 0
    then show ?thesis by simp
  next
    case (Suc k)
    with Cons.prems have "k < length ps" by simp
    from Cons.IH [OF this] Suc show ?thesis by simp
  qed
qed

lemma filter_nonempty_nth:
  "i < length ps \<Longrightarrow> P (ps ! i) \<Longrightarrow> 0 < length (filter P ps)"
  by (metis filter_empty_conv length_greater_0_conv nth_mem)

lemma pc_cases_list:
  "Running \<in> set ps \<or> Returned \<in> set ps \<or> Released \<in> set ps \<or> Waiting \<in> set ps
     \<or> (\<forall>p\<in>set ps. p = Finished)"
proof (cases "\<forall>p\<in>set ps. p = Finished")
  case True
  then show ?thesis by simp
next
  case False
  then obtain p where a: "p \<in> set ps" and b: "p \<noteq> Finished" by blast
  have "p = Waiting \<or> p = Running \<or> p = Returned \<or> p = Released"
    using b by (cases p) simp_all
  with a show ?thesis by auto
qed

lemma next_action:
  assumes i: "dispatch_inv e j s" and n: "0 < sint (jobThreads j)" and nj: "\<not> joined s"
  shows "\<exists>a s'. fire e j a s = Some s' \<and> remaining j s' < remaining j s"
proof (cases "length (pcs s) < length (jobMethods j)")
  case True
  then have "fire e j Spawn s = Some (s\<lparr>pcs := pcs s @ [Waiting], wg := wg s + 1\<rparr>)"
    by simp
  moreover have "remaining j (s\<lparr>pcs := pcs s @ [Waiting], wg := wg s + 1\<rparr>) < remaining j s"
    using True by (simp add: remaining_def)
  ultimately show ?thesis by blast
next
  case False
  with i have len: "length (pcs s) = length (jobMethods j)"
    by (simp add: dispatch_inv_def)
  from i have h: "sem s = length (filter holding (pcs s))"
    and w: "wg s = length (filter active (pcs s))"
    by (simp_all add: dispatch_inv_def)
  consider (run) "Running \<in> set (pcs s)"
    | (ret) "Returned \<in> set (pcs s)"
    | (rel) "Released \<in> set (pcs s)"
    | (wait) "Waiting \<in> set (pcs s)" "Running \<notin> set (pcs s)" "Returned \<notin> set (pcs s)"
    | (fin) "\<forall>p\<in>set (pcs s). p = Finished"
    using pc_cases_list [of "pcs s"] by blast
  then show ?thesis
  proof cases
    case run
    then obtain k where k: "k < length (pcs s)" and p: "pcs s ! k = Running"
      by (auto simp: in_set_conv_nth)
    let ?s' = "s\<lparr>pcs := (pcs s)[k := Returned],
                 sh := testMethod e (jobClient j) (jobURL j) (jobMethods j ! k)
                         (jobHeaders j) (jobCookies j) (jobLogger j) (sh s)\<rparr>"
    have "fire e j (Run k) s = Some ?s'" using k p by simp
    moreover have "remaining j ?s' < remaining j s"
      using rank_update [OF k, of Returned] p by (simp add: remaining_def)
    ultimately show ?thesis by blast
  next
    case ret
    then obtain k where k: "k < length (pcs s)" and p: "pcs s ! k = Returned"
      by (auto simp: in_set_conv_nth)
    have "0 < sem s"
      unfolding h using k by (rule filter_nonempty_nth) (simp add: p holding_def)
    then have "fire e j (Release k) s
        = Some (s\<lparr>pcs := (pcs s)[k := Released], sem := sem s - 1\<rparr>)"
      using k p by simp
    moreover have "remaining j (s\<lparr>pcs := (pcs s)[k := Released], sem := sem s - 1\<rparr>)
        < remaining j s"
      using rank_update [OF k, of Released] p by (simp add: remaining_def)
    ultimately show ?thesis by blast
  next
    case rel
    then obtain k where k: "k < length (pcs s)" and p: "pcs s ! k = Released"
      by (auto simp: in_set_conv_nth)
    have "0 < wg s"
      unfolding w using k by (rule filter_nonempty_nth) (simp add: p active_def)
    then have "fire e j (Done k) s
        = Some (s\<lparr>pcs := (pcs s)[k := Finished], wg := wg s - 1\<rparr>)"
      using k p by simp
    moreover have "remaining j (s\<lparr>pcs := (pcs s)[k := Finished], wg := wg s - 1\<rparr>)
        < remaining j s"
      using rank_update [OF k, of Finished] p by (simp add: remaining_def)
    ultimately show ?thesis by blast
  next
    case wait
    then obtain k where k: "k < length (pcs s)" and p: "pcs s ! k = Waiting"
      by (auto simp: in_set_conv_nth)
    from wait(2,3) have "filter holding (pcs s) = []"
      by (auto simp: filter_empty_conv holding_def)
    then have "sem s = 0" unfolding h by simp
    then have "int (sem s) < sint (jobThreads j)" using n by simp
    then have "fire e j (Acquire k) s
        = Some (s\<lparr>pcs := (pcs s)[k := Running], sem := sem s + 1\<rparr>)"
      using k p by simp
    moreover have "remaining j (s\<lparr>pcs := (pcs s)[k := Running], sem := sem s + 1\<rparr>)
        < remaining j s"
      using rank_update [OF k, of Running] p by (simp add: remaining_def)
    ultimately show ?thesis by blast
  next
    case fin
    then have "filter active (pcs s) = []"
      by (auto simp: filter_empty_conv active_def)
    then have "wg s = 0" unfolding w by simp
    then have "fire e j Wait s = Some (s\<lparr>joined := True\<rparr>)"
      using len nj by simp
    moreover have "remaining j (s\<lparr>joined := True\<rparr>) < remaining j s"
      using nj by (simp add: remaining_def)
    ultimately show ?thesis by blast
  qed
qed

lemma completes_from:
  "dispatch_inv e j s \<Longrightarrow> 0 < sint (jobThreads j) \<Longrightarrow>
   \<exists>sched s'. exec e j sched s = Some s' \<and> joined s'"
proof (induction "remaining j s" arbitrary: s rule: less_induct)
  case less
  show ?case
  proof (cases "joined s")
    case True
    then have "exec e j [] s = Some s \<and> joined s" by simp
    then show ?thesis by blast
  next
    case False
    from next_action [OF less.prems False] obtain a s1 where
      f: "fire e j a s = Some s1" and r: "remaining j s1 < remaining j s"
      by blast
    from less.prems(1) f have "dispatch_inv e j s1" by (rule inv_fire)
    from less.hyps [OF r this less.prems(2)] obtain sched s' where
      "exec e j sched s1 = Some s'" "joined s'"
      by blast
    with f have "exec e j (a # sched) s = Some s' \<and> joined s'" by simp
    then show ?thesis by blast
  qed
qed

lemma exec_append:
  "exec e j (xs @ ys) s = (case exec e j xs s of None \<Rightarrow> None | Some s1 \<Rightarrow> exec e j ys s1)"
  by (induction xs arbitrary: s) (simp_all split: option.splits)

text \<open>
  With a limit of at least one, a dispatch never gets stuck: from every state it can
  be in, some schedule leads to the return of \<^verbatim>\<open>wg.Wait()\<close>.
\<close>

lemma dispatch_completes:
  assumes "reachable e j t s" and "0 < sint (jobThreads j)"
  shows "\<exists>s'. reachable e j t s' \<and> joined s'"
proof -
  from assms(1) obtain s0 sched where s0: "start j t = Some s0"
    and x: "exec e j sched s0 = Some s"
    unfolding reachable_def by (elim exE conjE)
  from assms(1) have "dispatch_inv e j s" by (rule inv_reachable)
  from completes_from [OF this assms(2)] obtain sched' s' where
    x': "exec e j sched' s = Some s'" and j: "joined s'"
    by blast
  from x x' have "exec e j (sched @ sched') s0 = Some s'" by (simp add: exec_append)
  with s0 have "reachable e j t s'" unfolding reachable_def by blast
  with j show ?thesis by blast
qed

text \<open>
  With a limit of zero the channel is unbuffered: no worker ever gets a slot, and
  \<^verbatim>\<open>wg.Wait()\<close> never returns.
\<close>

lemma stuck_fire:
  assumes z: "sint (jobThreads j) = 0" and m: "jobMethods j \<noteq> []"
    and i: "dispatch_inv e j s" and w: "\<forall>p\<in>set (pcs s). p = Waiting" and nj: "\<not> joined s"
    and f: "fire e j a s = Some s'"
  shows "(\<forall>p\<in>set (pcs s'). p = Waiting) \<and> \<not> joined s'"
proof (cases a)
  case Spawn
  with f w nj show ?thesis by (auto split: if_splits)
next
  case (Acquire k)
  with f z show ?thesis by (simp split: if_splits)
next
  case (Run k)
  with f have "k < length (pcs s)" "pcs s ! k = Running" by (simp_all split: if_splits)
  then have "Running \<in> set (pcs s)" by (metis nth_mem)
  with w show ?thesis by auto
next
  case (Release k)
  with f have "k < length (pcs s)" "pcs s ! k = Returned" by (simp_all split: if_splits)
  then have "Returned \<in> set (pcs s)" by (metis nth_mem)
  with w show ?thesis by auto
next
  case (Done k)
  with f have "k < length (pcs s)" "pcs s ! k = Released" by (simp_all split: if_splits)
  then have "Released \<in> set (pcs s)" by (metis nth_mem)
  with w show ?thesis by auto
next
  case Wait
  with f have l: "length (pcs s) = length (jobMethods j)" and g: "wg s = 0"
    by (simp_all split: if_splits)
  from w have "filter active (pcs s) = pcs s" by (auto simp: filter_id_conv active_def)
  with i have "wg s = length (pcs s)" by (simp add: dispatch_inv_def)
  with l g m show ?thesis by simp
qed

lemma stuck_exec:
  assumes z: "sint (jobThreads j) = 0" and m: "jobMethods j \<noteq> []"
  shows "dispatch_inv e j s \<Longrightarrow> \<forall>p\<in>set (pcs s). p = Waiting \<Longrightarrow> \<not> joined s \<Longrightarrow>
    exec e j sched s = Some s' \<Longrightarrow> \<not> joined s'"
proof (induction sched arbitrary: s)
  case Nil
  then show ?case by simp
next
  case (Cons a sched)
  from Cons.prems(4) obtain s1 where f: "fire e j a s = Some s1"
    and x: "exec e j sched s1 = Some s'"
    by (auto split: option.splits)
  from Cons.prems(1) f have i1: "dispatch_inv e j s1" by (rule inv_fire)
  from stuck_fire [OF z m Cons.prems(1,2,3) f]
  have "\<forall>p\<in>set (pcs s1). p = Waiting" "\<not> joined s1" by simp_all
  with i1 show ?case using x by (rule Cons.IH)
qed

lemma zero_threads_stuck:
  assumes "reachable e j t s" and "sint (jobThreads j) = 0" and "jobMethods j \<noteq> []"
  shows "\<not> joined s"
proof -
  from assms(1) obtain s0 sched where s0: "start j t = Some s0"
    and x: "exec e j sched s0 = Some s"
    unfolding reachable_def by (elim exE conjE)
  from s0 have i: "dispatch_inv e j s0" by (rule inv_start)
  from s0 have "pcs s0 = []" "\<not> joined s0" by (auto simp: start_def split: if_splits)
  then have "\<forall>p\<in>set (pcs s0). p = Waiting" "\<not> joined s0" by simp_all
  with assms(2,3) i show ?thesis using x by (rule stuck_exec)
qed

text \<open>
  The catalog that \<^verbatim>\<open>runSingleProbe\<close> hands to the dispatch, with or without safe
  mode, holds no method twice.
\<close>

lemma dispatched_distinct:
  assumes "getMethods e config logger t = (Inr catalog, t')"
  shows "distinct (fst (safeModeFilter config logger catalog t''))"
proof -
  from getMethods_Inr [OF assms] obtain ws os where
    c: "catalog = sort (normalizeLoop (unicode_UpperCase e)
            (DefaultMethods @ ws @ os) [] Map.empty)"
    by (elim exE conjE)
  have "distinct [] \<and> ([]::string) \<notin> set []" by simp
  then have "distinct (normalizeLoop (unicode_UpperCase e)
      (DefaultMethods @ ws @ os) [] Map.empty) \<and>
      [] \<notin> set (normalizeLoop (unicode_UpperCase e)
          (DefaultMethods @ ws @ os) [] Map.empty)"
    using empty_seen by (intro normalizeLoop_distinct) simp_all
  then have "distinct catalog" unfolding c by simp
  then show ?thesis by (simp add: safeModeFilter_fst)
qed

text \<open>
  For the job that \<^verbatim>\<open>runSingleProbe\<close> dispatches the limit is
  \<^verbatim>\<open>config.Threads\<close>.
\<close>

lemma runSingleProbe_inflight:
  assumes "reachable e (dispatchJob config logger client headers cookies methods) t s"
  shows "int (inflight s) \<le> sint (Threads config)"
proof -
  let ?j = "dispatchJob config logger client headers cookies methods"
  from assms have "dispatch_inv e ?j s" by (rule inv_reachable)
  then have h: "sem s = length (filter holding (pcs s))"
    and n: "int (sem s) \<le> sint (jobThreads ?j)"
    by (simp_all add: dispatch_inv_def)
  have "inflight s \<le> length (filter holding (pcs s))"
    unfolding inflight_def by (rule length_filter_mono) (simp add: holding_def)
  with h n show ?thesis by (simp add: dispatchJob_def)
qed

end
